theory Spec2Isabelle
  imports Main "HOL-Library.Sublist"
begin

section \<open>The guarded find-and-replace script \<open>script_update.py\<close>\<close>

text \<open>
  The program is a straight-line Python script:
  \<^verbatim>\<open>
  path = Path('D:/Users/.../ehh_template-v1.1.8-active-KW-wonderAgent.yaml')
  text = path.read_text(encoding='utf-8')
  old = '...'
  new = '...'
  if old not in text:
      raise SystemExit('pattern not found')
  path.write_text(text.replace(old, new), encoding='utf-8')
  \<close>
  It uses three operations of Python's \<open>str\<close> (\<open>in\<close>, \<open>replace\<close>, and the search
  both are built on) and two of \<open>pathlib.Path\<close> (\<open>read_text\<close>, \<open>write_text\<close>).

  A Python string is a list of code points. The string operations are polymorphic in
  the character type \<open>'c\<close>; the files and the two \<open>pathlib\<close> calls work on code points
  as natural numbers, since they treat the line feed and the carriage return apart from
  the other characters.
\<close>

subsection \<open>Python's string operations\<close>

text \<open>\<open>content.startswith(sub)\<close>.\<close>

fun startswith :: "'c list \<Rightarrow> 'c list \<Rightarrow> bool" where
  "startswith content [] = True"
| "startswith [] (s # sub) = False"
| "startswith (c # content) (s # sub) = (c = s \<and> startswith content sub)"

text \<open>
  \<open>content.find(sub)\<close>: the lowest index at which \<open>sub\<close> occurs in \<open>content\<close>;
  Python's \<open>-1\<close> is \<open>None\<close>. The empty string is found at index 0 of every text.
\<close>

fun str_find :: "'c list \<Rightarrow> 'c list \<Rightarrow> nat option" where
  "str_find [] sub = (if sub = [] then Some 0 else None)"
| "str_find (c # content) sub =
     (if startswith (c # content) sub then Some 0
      else map_option Suc (str_find content sub))"

text \<open>\<open>sub in content\<close>.\<close>

definition contains :: "'c list \<Rightarrow> 'c list \<Rightarrow> bool" where
  "contains content sub = (str_find content sub \<noteq> None)"

text \<open>
  \<open>content.replace('', replacement)\<close>: for the empty pattern Python puts the
  replacement before every character and after the last one.
\<close>

fun replace_interleave :: "'c list \<Rightarrow> 'c list \<Rightarrow> 'c list" where
  "replace_interleave [] replacement = replacement"
| "replace_interleave (c # content) replacement =
     replacement @ c # replace_interleave content replacement"

text \<open>
  \<open>content.replace(expected, replacement)\<close> without a count: search for the pattern,
  copy the text before the match, emit the replacement, and go on behind the match,
  until the pattern is found no more.
\<close>

function replace :: "'c list \<Rightarrow> 'c list \<Rightarrow> 'c list \<Rightarrow> 'c list" where
  "replace content expected replacement =
     (if expected = [] then replace_interleave content replacement
      else case str_find content expected of
             None \<Rightarrow> content
           | Some i \<Rightarrow>
               take i content @ replacement @
               replace (drop (i + length expected) content) expected replacement)"
  by pat_completeness auto
termination
proof (relation "measure (\<lambda>(content, expected, replacement). length content)")
  show "wf (measure (\<lambda>(content :: 'c list, expected :: 'c list, replacement :: 'c list).
          length content))"
    by simp
next
  fix content expected replacement :: "'c list" and i :: nat
  assume ne: "expected \<noteq> []" and found: "str_find content expected = Some i"
  from found ne have "content \<noteq> []" by (cases content) auto
  moreover from ne have "0 < i + length expected" by simp
  ultimately have "length (drop (i + length expected) content) < length content"
    by simp
  then show "((drop (i + length expected) content, expected, replacement),
              (content, expected, replacement))
             \<in> measure (\<lambda>(content, expected, replacement). length content)"
    by simp
qed

declare replace.simps [simp del]

subsection \<open>Files, the two \<open>pathlib\<close> calls, and how the interpreter ends\<close>

text \<open>
  The two characters that text files treat specially, and the code points that UTF-8
  can encode: the Unicode scalar values, which leave out the surrogates. A Python
  string may hold a lone surrogate; a UTF-8 file cannot.
\<close>

definition LF :: nat where
  "LF = 10"

definition CR :: nat where
  "CR = 13"

definition scalar :: "nat \<Rightarrow> bool" where
  "scalar c \<longleftrightarrow> c < 0xD800 \<or> (0xDFFF < c \<and> c \<le> 0x10FFFF)"

definition scalar_text :: "nat list \<Rightarrow> bool" where
  "scalar_text cs = list_all scalar cs"

text \<open>
  Python's \<open>os.linesep\<close>: the line feed on POSIX systems, carriage return and line
  feed on Windows.
\<close>

datatype platform = Posix | Windows

fun linesep :: "platform \<Rightarrow> nat list" where
  "linesep Posix = [LF]"
| "linesep Windows = [CR, LF]"

text \<open>
  Both calls open the file in text mode with \<open>newline=None\<close>. On reading, each of
  \<open>'\r\n'\<close> and \<open>'\r'\<close> becomes \<open>'\n'\<close> (universal newlines); on writing, every \<open>'\n'\<close>
  becomes \<open>os.linesep\<close>.
\<close>

fun universal_newlines :: "nat list \<Rightarrow> nat list" where
  "universal_newlines [] = []"
| "universal_newlines [c] = [if c = CR then LF else c]"
| "universal_newlines (c # d # cs) =
     (if c = CR \<and> d = LF then LF # universal_newlines cs
      else if c = CR then LF # universal_newlines (d # cs)
      else c # universal_newlines (d # cs))"

definition translate_newlines :: "nat list \<Rightarrow> nat list \<Rightarrow> nat list" where
  "translate_newlines sep cs = concat (map (\<lambda>c. if c = LF then sep else [c]) cs)"

text \<open>
  A file has its content and whether the process may read and write it. The content is
  what is on disk, as the code points that its bytes encode in UTF-8; a content that is
  not \<open>scalar_text\<close> stands for bytes that are not UTF-8. The world is the platform, the
  file system, and the log of the file operations carried out so far, so that ``no
  write was performed'' is a statement about the log.
\<close>

record file_entry =
  data :: "nat list"
  readable :: bool
  writable :: bool

datatype io_event = ReadText string | WriteText string "nat list" | Truncate string

record world =
  platform :: platform
  files :: "string \<rightharpoonup> file_entry"
  events :: "io_event list"

text \<open>
  The exceptions the script can end with. \<open>SystemExit\<close> carries the string the
  script passes to it.
\<close>

datatype exn =
  FileNotFoundError | PermissionError | UnicodeDecodeError | UnicodeEncodeError
| SystemExit string

datatype outcome = Completed | Raised exn

text \<open>
  The interpreter's exit status: 0 when the script runs to its end; 1 for
  \<open>SystemExit\<close> with a string argument and for any other uncaught exception.
\<close>

fun exit_status :: "outcome \<Rightarrow> nat" where
  "exit_status Completed = 0"
| "exit_status (Raised e) = 1"

text \<open>
  What \<open>SystemExit\<close> with a string argument makes the interpreter print on standard
  error: the string and a newline. (The traceback of the other exceptions is not
  modelled.)
\<close>

fun stderr_message :: "outcome \<Rightarrow> string option" where
  "stderr_message (Raised (SystemExit msg)) = Some (msg @ ''\<newline>'')"
| "stderr_message out = None"

text \<open>
  \<open>Path(p).read_text(encoding='utf-8')\<close>: the whole file, decoded, with universal
  newlines. Nothing is read when the file is missing, may not be read, or is not UTF-8.
\<close>

definition read_text :: "world \<Rightarrow> string \<Rightarrow> exn + (nat list \<times> world)" where
  "read_text w p =
     (case files w p of
        None \<Rightarrow> Inl FileNotFoundError
      | Some f \<Rightarrow>
          if \<not> readable f then Inl PermissionError
          else if \<not> scalar_text (data f) then Inl UnicodeDecodeError
          else Inr (universal_newlines (data f), w\<lparr>events := events w @ [ReadText p]\<rparr>))"

text \<open>
  \<open>Path(p).write_text(s, encoding='utf-8')\<close>: the file is opened for writing, which
  fails before anything is changed when the process may not write it, creates the file
  when there is none, and empties it otherwise; then the text is encoded and written,
  every \<open>'\n'\<close> as \<open>os.linesep\<close>. A text with a code point that UTF-8 cannot encode
  raises \<open>UnicodeEncodeError\<close> and leaves the file empty. The result is the exception,
  if any, and the world as it then is.
\<close>

definition write_text :: "world \<Rightarrow> string \<Rightarrow> nat list \<Rightarrow> exn option \<times> world" where
  "write_text w p s =
     (let f = (case files w p of
                 None \<Rightarrow> \<lparr>data = [], readable = True, writable = True\<rparr>
               | Some f \<Rightarrow> f)
      in if \<not> writable f then (Some PermissionError, w)
         else if \<not> scalar_text s
         then (Some UnicodeEncodeError,
               w\<lparr>files := (files w)(p \<mapsto> f\<lparr>data := []\<rparr>),
                 events := events w @ [Truncate p]\<rparr>)
         else (None,
               w\<lparr>files := (files w)(p \<mapsto>
                        f\<lparr>data := translate_newlines (linesep (platform w)) s\<rparr>),
                 events := events w @ [WriteText p s]\<rparr>))"

subsection \<open>The script\<close>

text \<open>
  Lines 3 and 20 to 22 of the script, with its three constants as parameters: read,
  check that the pattern occurs, replace, write back. An exception ends the run where
  it is raised, with the world as it is then.
\<close>

definition apply_patch ::
  "string \<Rightarrow> nat list \<Rightarrow> nat list \<Rightarrow> world \<Rightarrow> outcome \<times> world" where
  "apply_patch p expected replacement w =
     (case read_text w p of
        Inl e \<Rightarrow> (Raised e, w)
      | Inr (content, w1) \<Rightarrow>
          if \<not> contains content expected
          then (Raised (SystemExit ''pattern not found''), w1)
          else (case write_text w1 p (replace content expected replacement) of
                  (Some e, w2) \<Rightarrow> (Raised e, w2)
                | (None, w2) \<Rightarrow> (Completed, w2)))"

text \<open>
  The script's constants (lines 2, 4 and 5 to 19). The two patterns are ASCII string
  literals; \<open>codepoints\<close> gives the code points of such a literal.
\<close>

definition codepoints :: "string \<Rightarrow> nat list" where
  "codepoints s = map of_char s"

definition path :: string where
  "path = ''D:/Users/0dot1/Documents/Github/dot/shunya/index/ehh_template-v1.1.8-active-KW-wonderAgent.yaml''"

definition old_literal :: string where
  \<open>old_literal =
     ''    1.3_scope_management:\<newline>'' @
     ''      file: "EHh-MANIFEST-SCOPE.md"\<newline>'' @
     ''      description: "Defines feature boundaries, future enhancements, and scope change process."\<newline>'' @
     ''      sections:\<newline>'' @
     ''        - "- "1.3.1 In-Scope Features: describe in-Scope Features for EHh.""\<newline>'' @
     ''        - "- "1.3.2 Out-of-Scope Features: describe out-of-Scope Features for EHh.""\<newline>'' @
     ''        - "- "1.3.3 Future Considerations: describe future Considerations for EHh.""\<newline>'' @
     ''        - "- "1.3.4 Scope Change Process: describe scope Change Process for EHh.""\<newline>'' @
     ''        - "- "1.3.5 Prioritization Matrix: describe prioritization Matrix for EHh.""\<newline>''\<close>

definition new_literal :: string where
  \<open>new_literal =
     ''    1.3_scope_management:\<newline>'' @
     ''      file: "EHh-MANIFEST-SCOPE.md"\<newline>'' @
     ''      description: "Defines feature boundaries, future enhancements, and scope change process."\<newline>'' @
     ''      sections:\<newline>'' @
     ''        - title: "1.3.1 In-Scope Features: describe in-scope features for EHh."\<newline>'' @
     ''          breakdown:\<newline>'' @
     ''            - "1.3.1.1 Platform orchestration: ActionApp choreography, ActionEngine sequencing, ActionLoader datasets."\<newline>'' @
     ''            - "1.3.1.2 Entity & storage features: ActionEntity management, ActionFs, LocalStorage, ActionIndexDb."\<newline>'' @
     ''            - "1.3.1.3 Navigation/UI: ActionView semantic nav, pointer/hover cues, accessibility helpers."\<newline>'' @
     ''            - "1.3.1.4 Utility + plugin surface: ActionValidator, ActionEvent, DocumentRenderer, httpService, Watchman."\<newline>'' @
     ''        - "- "1.3.2 Out-of-Scope Features: describe out-of-Scope Features for EHh.""\<newline>'' @
     ''        - "- "1.3.3 Future Considerations: describe future Considerations for EHh.""\<newline>'' @
     ''        - "- "1.3.4 Scope Change Process: describe scope Change Process for EHh.""\<newline>'' @
     ''        - "- "1.3.5 Prioritization Matrix: describe prioritization Matrix for EHh.""\<newline>''\<close>

definition old :: "nat list" where
  "old = codepoints old_literal"

definition new :: "nat list" where
  "new = codepoints new_literal"

text \<open>The script itself.\<close>

definition script_update :: "world \<Rightarrow> outcome \<times> world" where
  "script_update = apply_patch path old new"

subsection \<open>Reading a world\<close>

text \<open>What is on disk under a path, if there is a file.\<close>

definition disk_of :: "world \<Rightarrow> string \<Rightarrow> nat list option" where
  "disk_of w p = map_option data (files w p)"

text \<open>The text that reading the file under a path returns, if the read succeeds.\<close>

definition content_of :: "world \<Rightarrow> string \<Rightarrow> nat list option" where
  "content_of w p = (case read_text w p of Inl e \<Rightarrow> None | Inr (content, w') \<Rightarrow> Some content)"

text \<open>
  A world with one file, which may be read and written and holds the given content on
  disk, and an empty log.
\<close>

definition single_file :: "platform \<Rightarrow> string \<Rightarrow> nat list \<Rightarrow> world" where
  "single_file pf p d =
     \<lparr>platform = pf,
      files = [p \<mapsto> \<lparr>data = d, readable = True, writable = True\<rparr>],
      events = []\<rparr>"

subsection \<open>Notions in which the claims are stated\<close>

text \<open>
  None of the definitions of this subsection is code of the script; they say what the
  spec's words mean, and the facts below relate them to the script's operations.

  ``\<open>expected\<close> occurs in \<open>content\<close>'' is \<^term>\<open>sublist expected content\<close> of the
  library: \<open>content = ps @ expected @ ss\<close> for some \<open>ps\<close> and \<open>ss\<close>.

  The positions at which \<open>sub\<close> occurs in \<open>content\<close>, in increasing order.
\<close>

definition occurrences :: "'c list \<Rightarrow> 'c list \<Rightarrow> nat list" where
  "occurrences content sub =
     filter (\<lambda>i. startswith (drop i content) sub) [0..<Suc (length content)]"

text \<open>
  The spec's ``the original content with every occurrence of \<open>expected\<close> replaced by
  \<open>replacement\<close>'', for a non-empty \<open>expected\<close>: either \<open>expected\<close> does not occur and
  the text stays as it is, or the text is split at the leftmost occurrence (the pattern
  does not occur in what precedes it, even counting all but the last character of the
  occurrence itself), that occurrence becomes \<open>replacement\<close>, and the same holds of the
  rest.
\<close>

inductive spec_every_replaced :: "'c list \<Rightarrow> 'c list \<Rightarrow> 'c list \<Rightarrow> 'c list \<Rightarrow> bool"
  for expected replacement :: "'c list" where
  no_more:
    "\<not> sublist expected content \<Longrightarrow>
     spec_every_replaced expected replacement content content"
| next_occurrence:
    "\<not> sublist expected (before @ butlast expected) \<Longrightarrow>
     spec_every_replaced expected replacement rest out \<Longrightarrow>
     spec_every_replaced expected replacement
       (before @ expected @ rest) (before @ replacement @ out)"

text \<open>
  The spec's other policy, ``replace the first occurrence only'' (Python's
  \<open>content.replace(expected, replacement, 1)\<close>).
\<close>

definition spec_first_only :: "'c list \<Rightarrow> 'c list \<Rightarrow> 'c list \<Rightarrow> 'c list" where
  "spec_first_only content expected replacement =
     (case str_find content expected of
        None \<Rightarrow> content
      | Some i \<Rightarrow> take i content @ replacement @ drop (i + length expected) content)"

text \<open>Some non-empty end of \<open>xs\<close> is a beginning of \<open>ys\<close>.\<close>

fun overlaps :: "'c list \<Rightarrow> 'c list \<Rightarrow> bool" where
  "overlaps [] ys = False"
| "overlaps (x # xs) ys = (startswith ys (x # xs) \<or> overlaps xs ys)"

text \<open>
  Two strings are apart when neither occurs in the other and neither ends with a
  beginning of the other: in no text can an occurrence of the one share a position with
  an occurrence of the other. (Both are then non-empty, since the empty string occurs
  in every string.)
\<close>

definition apart :: "'c list \<Rightarrow> 'c list \<Rightarrow> bool" where
  "apart xs ys \<longleftrightarrow>
     \<not> contains ys xs \<and> \<not> contains xs ys \<and> \<not> overlaps xs ys \<and> \<not> overlaps ys xs"

text \<open>
  No non-empty end of \<open>cs\<close> begins with the marker \<open>m\<close> or is a beginning of \<open>m\<close>.
  (A device for showing that the script's two long constants are apart by one pass over
  each: both begin with the marker, and neither has it anywhere else.)
\<close>

fun marker_free :: "'c list \<Rightarrow> 'c list \<Rightarrow> bool" where
  "marker_free m [] = True"
| "marker_free m (c # cs) =
     (\<not> startswith (c # cs) m \<and> \<not> startswith m (c # cs) \<and> marker_free m cs)"

section \<open>Facts about the string operations\<close>

text \<open>
  The script's guard decides the substring relation: \<open>sub in content\<close> holds exactly
  when \<open>content = ps @ sub @ ss\<close> for some \<open>ps\<close> and \<open>ss\<close>.
\<close>

lemma startswith_prefix: "startswith content sub \<longleftrightarrow> prefix sub content"
  by (induction content sub rule: startswith.induct) auto

lemma str_find_None_iff: "str_find content sub = None \<longleftrightarrow> \<not> sublist sub content"
  by (induction content) (auto simp: startswith_prefix sublist_Cons_right)

lemma contains_sublist: "contains content sub \<longleftrightarrow> sublist sub content"
  by (simp add: contains_def str_find_None_iff)

text \<open>
  What \<open>find\<close> returns is an occurrence, and the leftmost one: the pattern does not
  occur before it, not even overlapping it.
\<close>

lemma str_find_Some_split:
  "str_find content sub = Some i \<Longrightarrow>
   content = take i content @ sub @ drop (i + length sub) content"
proof (induction content arbitrary: i)
  case Nil
  then show ?case by (simp split: if_splits)
next
  case (Cons c content)
  show ?case
  proof (cases "startswith (c # content) sub")
    case True
    with Cons.prems have "i = 0" by simp
    moreover from True obtain rest where "c # content = sub @ rest"
      by (auto simp: startswith_prefix prefix_def)
    ultimately show ?thesis by simp
  next
    case False
    with Cons.prems obtain j where j: "str_find content sub = Some j" "i = Suc j"
      by auto
    from Cons.IH [OF j(1)] j(2) show ?thesis by simp
  qed
qed

lemma str_find_leftmost:
  "str_find content sub = Some i \<Longrightarrow> sub \<noteq> [] \<Longrightarrow>
   \<not> sublist sub (take i content @ butlast sub)"
proof (induction content arbitrary: i)
  case Nil
  then show ?case by (simp split: if_splits)
next
  case (Cons c content)
  show ?case
  proof (cases "startswith (c # content) sub")
    case True
    with Cons.prems have "i = 0" by simp
    moreover have "\<not> sublist sub (butlast sub)"
      using Cons.prems(2) sublist_length_le [of sub "butlast sub"] by (cases sub) auto
    ultimately show ?thesis by simp
  next
    case False
    with Cons.prems obtain j where j: "str_find content sub = Some j" "i = Suc j"
      by auto
    have nopre: "\<not> prefix sub (c # take j content @ butlast sub)"
    proof
      assume pre: "prefix sub (c # take j content @ butlast sub)"
      from str_find_Some_split [OF j(1)]
      have "c # content = (c # take j content @ butlast sub) @ last sub # drop (j + length sub) content"
        using Cons.prems(2) by (metis append.assoc append_Cons append_Nil append_butlast_last_id)
      then have "prefix (c # take j content @ butlast sub) (c # content)"
        by (metis prefixI)
      with pre have "prefix sub (c # content)" by (rule prefix_order.trans)
      with False show False by (simp add: startswith_prefix)
    qed
    from Cons.IH [OF j(1) Cons.prems(2)] nopre j(2) show ?thesis
      by (simp add: sublist_Cons_right)
  qed
qed

lemma str_find_append:
  "\<not> sublist sub (pre @ butlast sub) \<Longrightarrow> str_find (pre @ sub @ rest) sub = Some (length pre)"
proof (induction pre)
  case Nil
  have "startswith (sub @ rest) sub" by (simp add: startswith_prefix)
  then show ?case by (cases "sub @ rest") (auto split: if_splits)
next
  case (Cons c pre)
  from Cons.prems have a: "\<not> prefix sub (c # pre @ butlast sub)" 
    and b: "\<not> sublist sub (pre @ butlast sub)"
    by (auto simp: sublist_Cons_right)
  have ne: "sub \<noteq> []" using a by auto
  have "\<not> prefix sub (c # pre @ sub @ rest)"
  proof
    assume p: "prefix sub (c # pre @ sub @ rest)"
    have q: "prefix (c # pre @ butlast sub) (c # pre @ sub @ rest)"
      using ne by (metis Cons_prefix_Cons append_butlast_last_id append.assoc prefixI same_prefix_prefix)
    have "length sub \<le> length (c # pre @ butlast sub)" by simp
    with p q have "prefix sub (c # pre @ butlast sub)"
      by (metis prefix_length_prefix)
    with a show False ..
  qed
  with Cons.IH [OF b] show ?case by (simp add: startswith_prefix)
qed

text \<open>The three cases of \<open>replace\<close>, as rewrite rules.\<close>

lemma replace_empty: "replace content [] r = replace_interleave content r"
  by (simp add: replace.simps)

lemma replace_absent: "e \<noteq> [] \<Longrightarrow> \<not> contains content e \<Longrightarrow> replace content e r = content"
  by (subst replace.simps) (simp add: contains_def)

lemma replace_found:
  "e \<noteq> [] \<Longrightarrow> str_find content e = Some i \<Longrightarrow>
   replace content e r = take i content @ r @ replace (drop (i + length e) content) e r"
  by (subst replace.simps) simp

lemma replace_interleave_Nil: "replace_interleave content [] = content"
  by (induction content) auto

lemma replace_same:
  "replacement = expected \<Longrightarrow> replace content expected replacement = content"
proof (induction content expected replacement rule: replace.induct)
  case (1 content expected replacement)
  show ?case
  proof (cases "expected = []")
    case True
    with "1.prems" show ?thesis by (simp add: replace_empty replace_interleave_Nil)
  next
    case False
    show ?thesis
    proof (cases "str_find content expected")
      case None
      with False show ?thesis by (simp add: replace_absent contains_def)
    next
      case (Some i)
      from "1.IH" [OF False Some "1.prems"] "1.prems"
      have "replace content expected replacement =
              take i content @ expected @ drop (i + length expected) content"
        by (simp add: replace_found [OF False Some])
      with str_find_Some_split [OF Some] show ?thesis by simp
    qed
  qed
qed

lemma replace_interleave_concat:
  "replace_interleave content r = concat (map (\<lambda>c. r @ [c]) content) @ r"
  by (induction content) auto

lemma contains_Nil: "contains content []"
  by (cases content) (simp_all add: contains_def)

lemma str_find_Some_bound:
  "str_find content sub = Some i \<Longrightarrow> i + length sub \<le> length content"
proof (induction content arbitrary: i)
  case Nil
  then show ?case by (simp split: if_splits)
next
  case (Cons c content)
  show ?case
  proof (cases "startswith (c # content) sub")
    case True
    with Cons.prems have "i = 0" by simp
    moreover from True have "length sub \<le> length (c # content)"
      unfolding startswith_prefix by (rule prefix_length_le)
    ultimately show ?thesis by simp
  next
    case False
    with Cons.prems obtain j where j: "str_find content sub = Some j" "i = Suc j"
      by auto
    from Cons.IH [OF j(1)] j(2) show ?thesis by simp
  qed
qed

lemma replace_at_first:
  assumes "\<not> sublist expected (before @ butlast expected)"
  shows "replace (before @ expected @ rest) expected replacement =
           before @ replacement @ replace rest expected replacement"
proof -
  from assms have ne: "expected \<noteq> []" by auto
  have "str_find (before @ expected @ rest) expected = Some (length before)"
    using assms by (rule str_find_append)
  from replace_found [OF ne this] show ?thesis by simp
qed

text \<open>
  \<open>replace\<close> computes the one text that \<open>spec_every_replaced\<close> relates to the content.
\<close>

lemma spec_every_replaced_unique:
  "spec_every_replaced expected replacement content out \<Longrightarrow>
   out = replace content expected replacement"
proof (induction rule: spec_every_replaced.induct)
  case (no_more content)
  then have "expected \<noteq> []" by auto
  with no_more show ?case by (simp add: replace_absent contains_sublist)
next
  case (next_occurrence before rest out)
  then show ?case by (simp add: replace_at_first)
qed

lemma spec_every_replaced_replace:
  "expected \<noteq> [] \<Longrightarrow>
   spec_every_replaced expected replacement content (replace content expected replacement)"
proof (induction content expected replacement rule: replace.induct)
  case (1 content expected replacement)
  show ?case
  proof (cases "str_find content expected")
    case None
    then have "\<not> sublist expected content" by (simp add: str_find_None_iff)
    then have "spec_every_replaced expected replacement content content"
      by (rule spec_every_replaced.no_more)
    moreover from None "1.prems" have "replace content expected replacement = content"
      by (simp add: replace_absent contains_def)
    ultimately show ?thesis by simp
  next
    case (Some i)
    let ?before = "take i content" and ?rest = "drop (i + length expected) content"
    have left: "\<not> sublist expected (?before @ butlast expected)"
      using Some "1.prems" by (rule str_find_leftmost)
    have "spec_every_replaced expected replacement ?rest (replace ?rest expected replacement)"
      using "1.prems" Some by (rule "1.IH") (rule "1.prems")
    with left have "spec_every_replaced expected replacement (?before @ expected @ ?rest)
        (?before @ replacement @ replace ?rest expected replacement)"
      by (rule spec_every_replaced.next_occurrence)
    moreover have "?before @ expected @ ?rest = content"
      using str_find_Some_split [OF Some] by simp
    moreover have "replace content expected replacement =
        ?before @ replacement @ replace ?rest expected replacement"
      using "1.prems" Some by (rule replace_found)
    ultimately show ?thesis by simp
  qed
qed

lemma occurrences_iff:
  "k \<in> set (occurrences content sub) \<longleftrightarrow> k \<le> length content \<and> prefix sub (drop k content)"
  by (auto simp add: occurrences_def startswith_prefix simp del: upt_Suc)

lemma str_find_occurrence:
  assumes "str_find content sub = Some i"
  shows "i \<in> set (occurrences content sub)"
proof -
  from str_find_Some_bound [OF assms] have le: "i \<le> length content" by simp
  from str_find_Some_split [OF assms]
  have "drop i content = drop i (take i content @ sub @ drop (i + length sub) content)"
    by simp
  also have "\<dots> = sub @ drop (i + length sub) content"
    using le by simp
  finally have "prefix sub (drop i content)" by simp
  with le show ?thesis by (simp add: occurrences_iff)
qed

lemma sublist_drop_occurrence:
  assumes "sublist sub (drop n content)" and "n \<le> length content"
  shows "\<exists>k\<ge>n. k \<in> set (occurrences content sub)"
proof -
  from assms(1) obtain ps ss where eq: "drop n content = ps @ sub @ ss"
    by (auto simp: sublist_def)
  have "drop (n + length ps) content = drop (length ps) (drop n content)"
    by (simp add: add.commute)
  also have "\<dots> = sub @ ss" by (simp add: eq)
  finally have pre: "prefix sub (drop (n + length ps) content)" by simp
  have "length (drop n content) = length ps + length sub + length ss"
    by (simp add: eq)
  then have "n + length ps \<le> length content" using assms(2) by simp
  with pre have "n + length ps \<in> set (occurrences content sub)"
    by (simp add: occurrences_iff)
  then show ?thesis by (intro exI [of _ "n + length ps"]) simp
qed

lemma replace_single_occurrence:
  assumes "occurrences content expected = [i]"
  shows "replace content expected replacement =
           take i content @ replacement @ drop (i + length expected) content"
proof (cases "expected = []")
  case True
  with assms have "[0..<Suc (length content)] = [i]"
    by (simp add: occurrences_def del: upt_Suc)
  then have "length [0..<Suc (length content)] = length [i]" by (rule arg_cong)
  then have empty: "content = []" by simp
  with assms True have "i = 0" by (auto simp: occurrences_def)
  with empty True show ?thesis by (simp add: replace_empty)
next
  case False
  have "i \<in> set (occurrences content expected)" using assms by simp
  then have "sublist expected content"
    by (auto simp: occurrences_iff intro: sublist_order.order_trans [OF prefix_imp_sublist sublist_drop])
  then obtain j where j: "str_find content expected = Some j"
    using str_find_None_iff [of content expected] by auto
  from str_find_occurrence [OF j] assms have ji: "j = i" by simp
  have "\<not> sublist expected (drop (i + length expected) content)"
  proof
    assume "sublist expected (drop (i + length expected) content)"
    moreover from str_find_Some_bound [OF j] ji have "i + length expected \<le> length content"
      by simp
    ultimately have "\<exists>k\<ge>i + length expected. k \<in> set (occurrences content expected)"
      by (rule sublist_drop_occurrence)
    with assms have "i + length expected \<le> i" by auto
    with False show False by simp
  qed
  then have "replace (drop (i + length expected) content) expected replacement =
      drop (i + length expected) content"
    using False by (simp add: replace_absent contains_sublist)
  with replace_found [OF False j] ji show ?thesis by simp
qed

lemma not_sublist_butlast: "sub \<noteq> [] \<Longrightarrow> \<not> sublist sub (butlast sub)"
  using sublist_length_le [of sub "butlast sub"] by (cases sub) auto

text \<open>
  A text in which the pattern occurs is changed by \<open>replace\<close>, unless the replacement
  is the pattern itself: the length of the result cannot agree otherwise.
\<close>

lemma length_replace_le:
  "expected \<noteq> [] \<Longrightarrow> length replacement \<le> length expected \<Longrightarrow>
   length (replace content expected replacement) \<le> length content"
proof (induction content expected replacement rule: replace.induct)
  case (1 content expected replacement)
  show ?case
  proof (cases "str_find content expected")
    case None
    with "1.prems" show ?thesis by (simp add: replace_absent contains_def)
  next
    case (Some i)
    from "1.IH" [OF "1.prems"(1) Some "1.prems"]
    have "length (replace (drop (i + length expected) content) expected replacement)
        \<le> length content - (i + length expected)"
      by simp
    with str_find_Some_bound [OF Some] "1.prems"(2) show ?thesis
      by (simp add: replace_found [OF "1.prems"(1) Some])
  qed
qed

lemma length_replace_ge:
  "expected \<noteq> [] \<Longrightarrow> length expected \<le> length replacement \<Longrightarrow>
   length content \<le> length (replace content expected replacement)"
proof (induction content expected replacement rule: replace.induct)
  case (1 content expected replacement)
  show ?case
  proof (cases "str_find content expected")
    case None
    with "1.prems" show ?thesis by (simp add: replace_absent contains_def)
  next
    case (Some i)
    from "1.IH" [OF "1.prems"(1) Some "1.prems"]
    have "length content - (i + length expected)
        \<le> length (replace (drop (i + length expected) content) expected replacement)"
      by simp
    with str_find_Some_bound [OF Some] "1.prems"(2) show ?thesis
      by (simp add: replace_found [OF "1.prems"(1) Some])
  qed
qed

lemma replace_fixpoint:
  assumes ne: "expected \<noteq> []" and occ: "sublist expected content"
    and same: "replace content expected replacement = content"
  shows "replacement = expected"
proof -
  from occ obtain i where i: "str_find content expected = Some i"
    using str_find_None_iff [of content expected] by auto
  let ?rest = "drop (i + length expected) content"
  let ?out = "replace ?rest expected replacement"
  have "take i content @ replacement @ ?out = take i content @ expected @ ?rest"
    using replace_found [OF ne i, of replacement] same str_find_Some_split [OF i] by simp
  then have eq: "replacement @ ?out = expected @ ?rest" by simp
  then have len: "length replacement + length ?out = length expected + length ?rest"
    by (metis length_append)
  have "length replacement = length expected"
  proof (cases "length replacement \<le> length expected")
    case True
    from length_replace_le [OF ne True, of ?rest] len True show ?thesis by simp
  next
    case False
    then have ge: "length expected \<le> length replacement" by simp
    from length_replace_ge [OF ne ge, of ?rest] len ge show ?thesis by simp
  qed
  with eq show ?thesis by simp
qed

lemma replace_shows_replacement:
  assumes "sublist expected content"
  shows "sublist replacement (replace content expected replacement)"
proof (cases "expected = []")
  case True
  then show ?thesis by (cases content) (simp_all add: replace_empty)
next
  case False
  from assms obtain i where i: "str_find content expected = Some i"
    using str_find_None_iff [of content expected] by auto
  show ?thesis by (simp add: replace_found [OF False i])
qed

text \<open>
  When the pattern and the replacement are apart, the pattern does not occur in the
  result of \<open>replace\<close>: an occurrence would have to lie before a replacement, behind
  it, or share a position with it.
\<close>

lemma overlaps_iff:
  "overlaps xs ys \<longleftrightarrow> (\<exists>zs. zs \<noteq> [] \<and> suffix zs xs \<and> prefix zs ys)"
proof (induction xs)
  case Nil
  then show ?case by simp
next
  case (Cons x xs)
  have "(\<exists>zs. zs \<noteq> [] \<and> suffix zs (x # xs) \<and> prefix zs ys)
      \<longleftrightarrow> prefix (x # xs) ys \<or> (\<exists>zs. zs \<noteq> [] \<and> suffix zs xs \<and> prefix zs ys)"
    by (auto simp: suffix_Cons)
  with Cons.IH show ?case by (simp add: startswith_prefix)
qed

lemma apart_nonempty: "apart xs ys \<Longrightarrow> xs \<noteq> [] \<and> ys \<noteq> []"
  by (auto simp: apart_def contains_sublist)

lemma sublist_across_apart:
  assumes ap: "apart sub sep" and occ: "sublist sub (xs @ sep @ ys)"
  shows "sublist sub xs \<or> sublist sub ys"
proof -
  from ap have no_in: "\<not> sublist sub sep" and no_around: "\<not> sublist sep sub"
    and no_left: "\<And>zs. zs \<noteq> [] \<Longrightarrow> suffix zs sub \<Longrightarrow> \<not> prefix zs sep"
    and no_right: "\<And>zs. zs \<noteq> [] \<Longrightarrow> suffix zs sep \<Longrightarrow> \<not> prefix zs sub"
    by (auto simp: apart_def contains_sublist overlaps_iff)
  from occ consider "sublist sub xs" | "sublist sub (sep @ ys)"
    | s1 s2 where "sub = s1 @ s2" "suffix s1 xs" "prefix s2 (sep @ ys)"
    by (auto simp: sublist_append)
  then show ?thesis
  proof cases
    case 1
    then show ?thesis ..
  next
    case 2
    then consider "sublist sub sep" | "sublist sub ys"
      | t1 t2 where "sub = t1 @ t2" "suffix t1 sep" "prefix t2 ys"
      by (auto simp: sublist_append)
    then show ?thesis
    proof cases
      case 1
      with no_in show ?thesis ..
    next
      case 2
      then show ?thesis ..
    next
      case 3
      show ?thesis
      proof (cases "t1 = []")
        case True
        with 3(1,3) show ?thesis by auto
      next
        case False
        from 3(1) have "prefix t1 sub" by simp
        with no_right [OF False 3(2)] show ?thesis ..
      qed
    qed
  next
    case 3
    from 3(3) consider "prefix s2 sep" | s3 where "s2 = sep @ s3"
      by (auto simp: prefix_append)
    then show ?thesis
    proof cases
      case 1
      show ?thesis
      proof (cases "s2 = []")
        case True
        with 3(1,2) show ?thesis by auto
      next
        case False
        from 3(1) have "suffix s2 sub" by (simp add: suffix_def)
        from no_left [OF False this] 1 show ?thesis ..
      qed
    next
      case 2
      with 3(1) have "sublist sep sub" by (auto simp: sublist_def)
      with no_around show ?thesis ..
    qed
  qed
qed

lemma replace_removes_expected:
  "apart expected replacement \<Longrightarrow> \<not> sublist expected (replace content expected replacement)"
proof (induction content expected replacement rule: replace.induct)
  case (1 content expected replacement)
  from "1.prems" have ne: "expected \<noteq> []" by (simp add: apart_nonempty)
  show ?case
  proof (cases "str_find content expected")
    case None
    with ne show ?thesis
      by (simp add: replace_absent contains_def str_find_None_iff [symmetric])
  next
    case (Some i)
    let ?rest = "drop (i + length expected) content"
    have ih: "\<not> sublist expected (replace ?rest expected replacement)"
      using ne Some "1.prems" by (rule "1.IH")
    have "\<not> sublist expected (take i content @ butlast expected)"
      using Some ne by (rule str_find_leftmost)
    then have before: "\<not> sublist expected (take i content)"
      by (auto simp: sublist_append)
    have "\<not> sublist expected
        (take i content @ replacement @ replace ?rest expected replacement)"
      using sublist_across_apart [OF "1.prems"] before ih by blast
    then show ?thesis by (simp add: replace_found [OF ne Some])
  qed
qed

lemma apart_if_no_common_char:
  assumes "xs \<noteq> []" and "ys \<noteq> []" and "set xs \<inter> set ys = {}"
  shows "apart xs ys"
proof -
  have "zs = []" if "set zs \<subseteq> set xs" "set zs \<subseteq> set ys" for zs
    using that assms(3) by (cases zs) auto
  moreover have "set zs \<subseteq> set us" if "suffix zs us" for zs us :: "'c list"
    using that by (auto simp: suffix_def)
  moreover have "set zs \<subseteq> set us" if "prefix zs us" for zs us :: "'c list"
    using that by (auto simp: prefix_def)
  moreover have "\<not> sublist xs ys"
    using assms set_mono_sublist [of xs ys] by (cases xs) auto
  moreover have "\<not> sublist ys xs"
    using assms set_mono_sublist [of ys xs] by (cases ys) auto
  ultimately show ?thesis
    unfolding apart_def contains_sublist overlaps_iff by blast
qed

lemma marker_free_iff:
  "marker_free m cs \<longleftrightarrow>
     (\<forall>zs. zs \<noteq> [] \<and> suffix zs cs \<longrightarrow> \<not> prefix m zs \<and> \<not> prefix zs m)"
proof (induction cs)
  case Nil
  then show ?case by simp
next
  case (Cons c cs)
  have "(\<forall>zs. zs \<noteq> [] \<and> suffix zs (c # cs) \<longrightarrow> \<not> prefix m zs \<and> \<not> prefix zs m)
      \<longleftrightarrow> (\<not> prefix m (c # cs) \<and> \<not> prefix (c # cs) m)
        \<and> (\<forall>zs. zs \<noteq> [] \<and> suffix zs cs \<longrightarrow> \<not> prefix m zs \<and> \<not> prefix zs m)"
    by (auto simp: suffix_Cons)
  with Cons.IH show ?case by (simp add: startswith_prefix)
qed

lemma proper_suffix_tl:
  assumes "suffix zs xs" and "zs \<noteq> xs"
  shows "suffix zs (tl xs)"
  using assms by (cases xs) (auto simp: suffix_Cons)

lemma apart_by_marker:
  assumes xs: "(xs :: 'c list) = m @ xs'" and ys: "ys = m @ ys'"
    and fx: "marker_free m (tl xs)" and fy: "marker_free m (tl ys)"
    and nxy: "\<not> prefix xs ys" and nyx: "\<not> prefix ys xs"
  shows "apart xs ys"
proof -
  have no_sub: "\<not> sublist us vs"
    if us: "us = m @ us'" and fv: "marker_free m (tl vs)" and np: "\<not> prefix us vs"
    for us us' vs :: "'c list"
  proof
    assume "sublist us vs"
    then obtain ps ss where vs: "vs = ps @ us @ ss" by (auto simp: sublist_def)
    from np have ne: "us \<noteq> []" by auto
    from vs np have "ps \<noteq> []" by auto
    then have "us @ ss \<noteq> vs" using vs by simp
    moreover have "suffix (us @ ss) vs" using vs by (simp add: suffix_def)
    ultimately have "suffix (us @ ss) (tl vs)" by (simp add: proper_suffix_tl)
    moreover have "us @ ss \<noteq> []" using ne by simp
    moreover have "prefix m (us @ ss)" using us by simp
    ultimately show False using fv by (auto simp: marker_free_iff)
  qed
  have no_over: "\<not> overlaps us vs"
    if vs: "vs = m @ vs'" and fu: "marker_free m (tl us)" and np: "\<not> prefix us vs"
    for us vs vs' :: "'c list"
  proof
    assume "overlaps us vs"
    then obtain zs where zs: "zs \<noteq> []" "suffix zs us" "prefix zs vs"
      by (auto simp: overlaps_iff)
    from zs(3) np have "zs \<noteq> us" by auto
    with zs(2) have tl: "suffix zs (tl us)" by (rule proper_suffix_tl)
    have "prefix m vs" using vs by simp
    with zs(3) have "prefix zs m \<or> prefix m zs" by (rule prefix_same_cases)
    with zs(1) tl fu show False by (auto simp: marker_free_iff)
  qed
  from no_sub [OF xs fy nxy] no_sub [OF ys fx nyx]
    no_over [OF ys fx nxy] no_over [OF xs fy nyx]
  show ?thesis by (simp add: apart_def contains_sublist)
qed

text \<open>An occurrence that is the only one splits the text around it.\<close>

lemma occurrence_split:
  assumes "occurrences content sub = [i]"
  shows "content = take i content @ sub @ drop (i + length sub) content"
proof -
  have "i \<in> set (occurrences content sub)" using assms by simp
  then have "prefix sub (drop i content)" by (simp add: occurrences_iff)
  then obtain rest where rest: "drop i content = sub @ rest" by (auto simp: prefix_def)
  then have "drop (length sub) (drop i content) = rest" by simp
  then have "rest = drop (i + length sub) content" by (simp add: add.commute)
  with rest have "drop i content = sub @ drop (i + length sub) content" by simp
  then have "take i content @ drop i content
      = take i content @ sub @ drop (i + length sub) content" by simp
  then show ?thesis by simp
qed

section \<open>Facts about line ends and encoding\<close>

text \<open>
  A text that was read holds no carriage return, and a text without carriage returns
  comes back from the disk as it was written, on either platform.
\<close>

lemma universal_newlines_Cons:
  "c \<noteq> CR \<Longrightarrow> universal_newlines (c # cs) = c # universal_newlines cs"
  by (cases cs) simp_all

lemma universal_newlines_no_CR: "CR \<notin> set (universal_newlines cs)"
  by (induction cs rule: universal_newlines.induct) (auto simp: LF_def CR_def)

lemma universal_newlines_id: "CR \<notin> set cs \<Longrightarrow> universal_newlines cs = cs"
  by (induction cs) (auto simp: universal_newlines_Cons)

lemma translate_newlines_append:
  "translate_newlines sep (xs @ ys) = translate_newlines sep xs @ translate_newlines sep ys"
  by (simp add: translate_newlines_def)

lemma translate_newlines_Posix: "translate_newlines [LF] cs = cs"
  by (induction cs) (auto simp: translate_newlines_def)

lemma read_back:
  assumes "CR \<notin> set cs"
  shows "universal_newlines (translate_newlines (linesep pf) cs) = cs"
proof (cases pf)
  case Posix
  with assms show ?thesis by (simp add: translate_newlines_Posix universal_newlines_id)
next
  case Windows
  have "universal_newlines (translate_newlines [CR, LF] cs) = cs"
    using assms
  proof (induction cs)
    case Nil
    then show ?case by (simp add: translate_newlines_def)
  next
    case (Cons c cs)
    then have ih: "universal_newlines (translate_newlines [CR, LF] cs) = cs"
      and c: "c \<noteq> CR" by auto
    show ?case
    proof (cases "c = LF")
      case True
      have "translate_newlines [CR, LF] (c # cs) = CR # LF # translate_newlines [CR, LF] cs"
        using True by (simp add: translate_newlines_def)
      with ih True show ?thesis by simp
    next
      case False
      have "translate_newlines [CR, LF] (c # cs) = c # translate_newlines [CR, LF] cs"
        using False by (simp add: translate_newlines_def)
      with ih c show ?thesis by (simp add: universal_newlines_Cons)
    qed
  qed
  with Windows show ?thesis by simp
qed

lemma scalar_LF: "scalar LF" and scalar_CR: "scalar CR"
  by (simp_all add: scalar_def LF_def CR_def)

lemma scalar_text_universal_newlines:
  "scalar_text cs \<Longrightarrow> scalar_text (universal_newlines cs)"
  by (induction cs rule: universal_newlines.induct) (auto simp: scalar_text_def scalar_LF)

lemma scalar_text_translate_newlines:
  "scalar_text cs \<Longrightarrow> scalar_text (translate_newlines (linesep pf) cs)"
  by (cases pf; induction cs)
    (auto simp: scalar_text_def translate_newlines_def scalar_LF scalar_CR)

lemma set_replace_interleave:
  "set (replace_interleave content replacement) \<subseteq> set content \<union> set replacement"
  by (induction content) auto

lemma set_replace: "set (replace content expected replacement) \<subseteq> set content \<union> set replacement"
proof (induction content expected replacement rule: replace.induct)
  case (1 content expected replacement)
  show ?case
  proof (cases "expected = []")
    case True
    then show ?thesis by (simp add: replace_empty set_replace_interleave)
  next
    case False
    show ?thesis
    proof (cases "str_find content expected")
      case None
      with False show ?thesis by (simp add: replace_absent contains_def)
    next
      case (Some i)
      have "set (take i content) \<subseteq> set content"
        and "set (drop (i + length expected) content) \<subseteq> set content"
        by (auto dest: in_set_takeD in_set_dropD)
      with "1.IH" [OF False Some] show ?thesis
        by (auto simp: replace_found [OF False Some])
    qed
  qed
qed

lemma scalar_text_replace:
  "scalar_text content \<Longrightarrow> scalar_text replacement \<Longrightarrow>
   scalar_text (replace content expected replacement)"
  using set_replace [of content expected replacement]
  by (auto simp: scalar_text_def list_all_iff)

lemma replace_no_CR:
  "CR \<notin> set content \<Longrightarrow> CR \<notin> set replacement \<Longrightarrow>
   CR \<notin> set (replace content expected replacement)"
  using set_replace [of content expected replacement] by auto

lemma scalar_text_sublist: "sublist sub cs \<Longrightarrow> scalar_text cs \<Longrightarrow> scalar_text sub"
  using set_mono_sublist [of sub cs] by (auto simp: scalar_text_def list_all_iff)

lemma scalar_text_codepoints: "scalar_text (codepoints s)"
proof -
  have "(of_char c :: nat) < 256" for c
    using of_char_mod_256 [of c, where ?'a = nat] by (metis mod_less_divisor zero_less_numeral)
  then have "scalar (of_char c)" for c
    using less_trans [of "of_char c :: nat" 256 "0xD800"] by (simp add: scalar_def)
  then show ?thesis by (simp add: scalar_text_def codepoints_def list_all_iff)
qed

lemma scalar_text_universal_newlinesD:
  "scalar_text (universal_newlines cs) \<Longrightarrow> scalar_text cs"
  by (induction cs rule: universal_newlines.induct)
    (auto simp: scalar_text_def scalar_CR split: if_splits)

section \<open>Facts about the script's constants\<close>

text \<open>
  The facts about the two long literals are computed on the characters and carried
  over to the code points, \<open>of_char\<close> being injective.
\<close>

lemma startswith_map:
  "inj f \<Longrightarrow> startswith (map f xs) (map f ys) = startswith xs ys"
  by (induction xs ys rule: startswith.induct) (auto simp: inj_eq)

lemma marker_free_map:
  "inj f \<Longrightarrow> marker_free (map f m) (map f cs) = marker_free m cs"
proof (induction cs)
  case Nil
  then show ?case by simp
next
  case (Cons c cs)
  from startswith_map [OF Cons.prems, of "c # cs" m]
    startswith_map [OF Cons.prems, of m "c # cs"] Cons
  show ?case by simp
qed

lemma old_nonempty: "old \<noteq> []"
proof -
  have "old_literal \<noteq> []" by (simp add: old_literal_def)
  then show ?thesis by (simp add: old_def codepoints_def)
qed

lemma new_differs: "new \<noteq> old"
proof -
  have "new_literal \<noteq> old_literal"
    by (simp add: old_literal_def new_literal_def)
  then show ?thesis
    by (simp add: old_def new_def codepoints_def inj_map_eq_map [OF inj_of_char])
qed

lemma CR_codepoints: "CR \<in> set (codepoints s) \<longleftrightarrow> CHR 0x0D \<in> set s"
proof -
  have "(of_char (CHR 0x0D) :: nat) = CR" by (simp add: CR_def)
  then have "CR \<in> set (codepoints s) \<longleftrightarrow> of_char (CHR 0x0D) \<in> (of_char ` set s :: nat set)"
    by (simp only: codepoints_def set_map)
  also have "\<dots> \<longleftrightarrow> CHR 0x0D \<in> set s"
    by (rule inj_image_mem_iff [OF inj_of_char])
  finally show ?thesis .
qed

lemma old_no_CR: "CR \<notin> set old"
proof -
  have "list_all (\<lambda>c. c \<noteq> CHR 0x0D) old_literal"
    by (simp add: old_literal_def)
  then show ?thesis by (auto simp: old_def CR_codepoints list_all_iff)
qed

lemma new_no_CR: "CR \<notin> set new"
proof -
  have "list_all (\<lambda>c. c \<noteq> CHR 0x0D) new_literal"
    by (simp add: new_literal_def)
  then show ?thesis by (auto simp: new_def CR_codepoints list_all_iff)
qed

lemma scalar_text_old: "scalar_text old" and scalar_text_new: "scalar_text new"
  by (simp_all add: old_def new_def scalar_text_codepoints)

lemma old_new_apart: "apart old new"
proof (rule apart_by_marker)
  have "old_literal = ''    1'' @ drop 5 old_literal" by (simp add: old_literal_def)
  then have "codepoints old_literal = codepoints (''    1'' @ drop 5 old_literal)"
    by (rule arg_cong)
  then show "old = codepoints ''    1'' @ codepoints (drop 5 old_literal)"
    by (simp only: old_def codepoints_def map_append)
  have "new_literal = ''    1'' @ drop 5 new_literal" by (simp add: new_literal_def)
  then have "codepoints new_literal = codepoints (''    1'' @ drop 5 new_literal)"
    by (rule arg_cong)
  then show "new = codepoints ''    1'' @ codepoints (drop 5 new_literal)"
    by (simp only: new_def codepoints_def map_append)
  have "marker_free ''    1'' (tl old_literal)" by (simp add: old_literal_def)
  then show "marker_free (codepoints ''    1'') (tl old)"
    by (simp only: old_def codepoints_def map_tl [symmetric] marker_free_map [OF inj_of_char])
  have "marker_free ''    1'' (tl new_literal)" by (simp add: new_literal_def)
  then show "marker_free (codepoints ''    1'') (tl new)"
    by (simp only: new_def codepoints_def map_tl [symmetric] marker_free_map [OF inj_of_char])
  have "\<not> startswith new_literal old_literal"
    by (simp add: old_literal_def new_literal_def)
  moreover have "startswith new old = startswith new_literal old_literal"
    unfolding old_def new_def codepoints_def by (rule startswith_map [OF inj_of_char])
  ultimately show "\<not> prefix old new"
    by (simp add: startswith_prefix)
  have "\<not> startswith old_literal new_literal"
    by (simp add: old_literal_def new_literal_def)
  moreover have "startswith old new = startswith old_literal new_literal"
    unfolding old_def new_def codepoints_def by (rule startswith_map [OF inj_of_char])
  ultimately show "\<not> prefix new old"
    by (simp add: startswith_prefix)
qed

section \<open>Facts about a run of the script\<close>

lemma content_of_file:
  assumes "files w p = Some f" and "readable f" and "scalar_text (data f)"
  shows "content_of w p = Some (universal_newlines (data f))"
  using assms by (simp add: content_of_def read_text_def)

lemma apply_patch_mismatch:
  assumes "files w p = Some f" and "readable f" and "scalar_text (data f)"
    and "\<not> contains (universal_newlines (data f)) expected"
  shows "apply_patch p expected replacement w =
           (Raised (SystemExit ''pattern not found''), w\<lparr>events := events w @ [ReadText p]\<rparr>)"
  using assms by (simp add: apply_patch_def read_text_def)

lemma apply_patch_success:
  assumes "files w p = Some f" and "readable f" and "writable f"
    and "scalar_text (data f)" and "scalar_text replacement"
    and "contains (universal_newlines (data f)) expected"
  shows "apply_patch p expected replacement w =
           (Completed,
            w\<lparr>files := (files w)(p \<mapsto> f\<lparr>data :=
                  translate_newlines (linesep (platform w))
                    (replace (universal_newlines (data f)) expected replacement)\<rparr>),
              events := events w @
                [ReadText p,
                 WriteText p (replace (universal_newlines (data f)) expected replacement)]\<rparr>)"
proof -
  have "scalar_text (replace (universal_newlines (data f)) expected replacement)"
    using assms(4,5) by (simp add: scalar_text_replace scalar_text_universal_newlines)
  with assms show ?thesis
    by (simp add: apply_patch_def read_text_def write_text_def)
qed

text \<open>What a run that completes leaves behind.\<close>

lemma apply_patch_after:
  assumes "files w p = Some f" and "readable f" and "writable f"
    and "scalar_text (data f)" and "scalar_text replacement"
    and "sublist expected (universal_newlines (data f))"
  shows "fst (apply_patch p expected replacement w) = Completed"
    and "events (snd (apply_patch p expected replacement w)) = events w @
          [ReadText p,
           WriteText p (replace (universal_newlines (data f)) expected replacement)]"
    and "files (snd (apply_patch p expected replacement w)) p =
          Some (f\<lparr>data := translate_newlines (linesep (platform w))
            (replace (universal_newlines (data f)) expected replacement)\<rparr>)"
    and "q \<noteq> p \<Longrightarrow> files (snd (apply_patch p expected replacement w)) q = files w q"
    and "platform (snd (apply_patch p expected replacement w)) = platform w"
    and "disk_of (snd (apply_patch p expected replacement w)) p =
          Some (translate_newlines (linesep (platform w))
            (replace (universal_newlines (data f)) expected replacement))"
    and "content_of (snd (apply_patch p expected replacement w)) p =
          Some (universal_newlines (translate_newlines (linesep (platform w))
            (replace (universal_newlines (data f)) expected replacement)))"
proof -
  let ?out = "replace (universal_newlines (data f)) expected replacement"
  let ?w1 = "snd (apply_patch p expected replacement w)"
  from assms(6) have found: "contains (universal_newlines (data f)) expected"
    by (simp add: contains_sublist)
  note run = apply_patch_success [OF assms(1-5) found]
  show "fst (apply_patch p expected replacement w) = Completed"
    and "events ?w1 = events w @ [ReadText p, WriteText p ?out]"
    and fl: "files ?w1 p =
      Some (f\<lparr>data := translate_newlines (linesep (platform w)) ?out\<rparr>)"
    and "q \<noteq> p \<Longrightarrow> files ?w1 q = files w q"
    and "platform ?w1 = platform w"
    by (simp_all add: run)
  from fl show "disk_of ?w1 p = Some (translate_newlines (linesep (platform w)) ?out)"
    by (simp add: disk_of_def)
  have "scalar_text (translate_newlines (linesep (platform w)) ?out)"
    using assms(4,5)
    by (simp add: scalar_text_translate_newlines scalar_text_replace
        scalar_text_universal_newlines)
  with fl assms(2)
  show "content_of ?w1 p =
      Some (universal_newlines (translate_newlines (linesep (platform w)) ?out))"
    by (simp add: content_of_def read_text_def)
qed

lemma apply_patch_content:
  assumes "files w p = Some f" and "readable f" and "writable f"
    and "scalar_text (data f)" and "scalar_text replacement"
    and "sublist expected (universal_newlines (data f))"
    and "CR \<notin> set replacement"
  shows "content_of (snd (apply_patch p expected replacement w)) p =
           Some (replace (universal_newlines (data f)) expected replacement)"
proof -
  have "CR \<notin> set (replace (universal_newlines (data f)) expected replacement)"
    using universal_newlines_no_CR assms(7) by (rule replace_no_CR)
  then show ?thesis
    by (simp add: apply_patch_after(7) [OF assms(1-6)] read_back)
qed

text \<open>Running the script a second time, on the world the first run left.\<close>

lemma second_run_mismatch:
  assumes "files w p = Some f" and "readable f" and "writable f"
    and "scalar_text (data f)" and "scalar_text replacement"
    and "sublist expected (universal_newlines (data f))"
    and "\<not> sublist expected
          (universal_newlines (translate_newlines (linesep (platform w))
            (replace (universal_newlines (data f)) expected replacement)))"
  shows "fst (apply_patch p expected replacement (snd (apply_patch p expected replacement w)))
           = Raised (SystemExit ''pattern not found'')
       \<and> files (snd (apply_patch p expected replacement
             (snd (apply_patch p expected replacement w))))
           = files (snd (apply_patch p expected replacement w))"
proof -
  let ?w1 = "snd (apply_patch p expected replacement w)"
  let ?f1 = "f\<lparr>data := translate_newlines (linesep (platform w))
    (replace (universal_newlines (data f)) expected replacement)\<rparr>"
  note after = apply_patch_after [OF assms(1-6)]
  have "files ?w1 p = Some ?f1" by (rule after(3))
  moreover have "readable ?f1" using assms(2) by simp
  moreover have "scalar_text (data ?f1)"
    using assms(4,5)
    by (simp add: scalar_text_translate_newlines scalar_text_replace
        scalar_text_universal_newlines)
  moreover have "\<not> contains (universal_newlines (data ?f1)) expected"
    using assms(7) by (simp add: contains_sublist)
  ultimately show ?thesis
    using apply_patch_mismatch [of ?w1 p ?f1 expected replacement] by simp
qed

lemma second_run_success:
  assumes "files w p = Some f" and "readable f" and "writable f"
    and "scalar_text (data f)" and "scalar_text replacement"
    and "sublist expected (universal_newlines (data f))"
    and "sublist expected
          (universal_newlines (translate_newlines (linesep (platform w))
            (replace (universal_newlines (data f)) expected replacement)))"
  shows "fst (apply_patch p expected replacement (snd (apply_patch p expected replacement w)))
           = Completed"
proof -
  let ?w1 = "snd (apply_patch p expected replacement w)"
  let ?f1 = "f\<lparr>data := translate_newlines (linesep (platform w))
    (replace (universal_newlines (data f)) expected replacement)\<rparr>"
  note after = apply_patch_after [OF assms(1-6)]
  have "files ?w1 p = Some ?f1" by (rule after(3))
  moreover have "readable ?f1" and "writable ?f1" using assms(2,3) by simp_all
  moreover have "scalar_text (data ?f1)"
    using assms(4,5)
    by (simp add: scalar_text_translate_newlines scalar_text_replace
        scalar_text_universal_newlines)
  moreover have "contains (universal_newlines (data ?f1)) expected"
    using assms(7) by (simp add: contains_sublist)
  ultimately show ?thesis
    using apply_patch_success [of ?w1 p ?f1 replacement expected] assms(5) by simp
qed

text \<open>
  When the expected string and the replacement are apart and the replacement holds no
  carriage return, the text that a second run reads is the text the first run wrote,
  and the expected string does not occur in it.
\<close>

lemma second_text_without_expected:
  assumes "apart expected replacement" and "CR \<notin> set replacement"
  shows "\<not> sublist expected
          (universal_newlines (translate_newlines (linesep pf)
            (replace (universal_newlines d) expected replacement)))"
proof -
  have "CR \<notin> set (replace (universal_newlines d) expected replacement)"
    using universal_newlines_no_CR assms(2) by (rule replace_no_CR)
  then have "universal_newlines (translate_newlines (linesep pf)
      (replace (universal_newlines d) expected replacement))
    = replace (universal_newlines d) expected replacement"
    by (rule read_back)
  with replace_removes_expected [OF assms(1)] show ?thesis by simp
qed

text \<open>The script on texts made of its own constant \<open>old\<close>.\<close>

lemma replace_old: "replace old old new = new"
proof -
  have "\<not> sublist old ([] @ butlast old)"
    using not_sublist_butlast [OF old_nonempty] by simp
  then have "replace ([] @ old @ []) old new = [] @ new @ replace [] old new"
    by (rule replace_at_first)
  then show ?thesis
    using old_nonempty by (simp add: replace_absent contains_def)
qed

lemma replace_old_old: "replace (old @ old) old new = new @ new"
proof -
  have "\<not> sublist old ([] @ butlast old)"
    using not_sublist_butlast [OF old_nonempty] by simp
  then have "replace ([] @ old @ old) old new = [] @ new @ replace old old new"
    by (rule replace_at_first)
  then show ?thesis by (simp add: replace_old)
qed

text \<open>
  The script's \<open>old\<close> and \<open>new\<close> are apart and hold no carriage return, so a second
  run of the script itself always ends with \<open>SystemExit\<close>, whatever the file held before
  the first run.
\<close>

lemma script_update_twice:
  assumes "files w path = Some f" and "readable f" and "writable f"
    and "scalar_text (data f)"
    and "sublist old (universal_newlines (data f))"
  shows "fst (script_update w) = Completed
       \<and> fst (script_update (snd (script_update w)))
           = Raised (SystemExit ''pattern not found'')"
proof -
  note io = assms(1-4) scalar_text_new assms(5)
  have "fst (script_update w) = Completed"
    using apply_patch_after(1) [OF io] by (simp add: script_update_def)
  moreover have "fst (script_update (snd (script_update w)))
      = Raised (SystemExit ''pattern not found'')"
    using second_run_mismatch
      [OF io second_text_without_expected [OF old_new_apart new_no_CR]]
    by (simp add: script_update_def)
  ultimately show ?thesis by simp
qed

section \<open>The claims\<close>

text \<open>
  Claim C1. When the expected substring does not occur in the content of the file (the
  text that reading it returns), the run ends with \<open>SystemExit('pattern not found')\<close>
  (the spec's PatchMismatch), every file is as it was, and the only file operation
  carried out is the read: nothing was written.
\<close>

theorem C1_absent_fails_without_write:
  assumes "files w p = Some f" and "readable f" and "scalar_text (data f)"
    and "\<not> sublist expected (universal_newlines (data f))"
  shows "fst (apply_patch p expected replacement w) = Raised (SystemExit ''pattern not found'')
       \<and> files (snd (apply_patch p expected replacement w)) = files w
       \<and> events (snd (apply_patch p expected replacement w)) = events w @ [ReadText p]"
proof -
  from assms(4) have "\<not> contains (universal_newlines (data f)) expected"
    by (simp add: contains_sublist)
  from apply_patch_mismatch [OF assms(1-3) this] show ?thesis by simp
qed

theorem C1_absent_fails_without_write_witness:
  "fst (apply_patch ''f'' (codepoints ''X\<newline>'') (codepoints ''Y'')
         (single_file Posix ''f'' (codepoints ''A\<newline>B\<newline>C\<newline>'')))
     = Raised (SystemExit ''pattern not found'')
   \<and> files (snd (apply_patch ''f'' (codepoints ''X\<newline>'') (codepoints ''Y'')
         (single_file Posix ''f'' (codepoints ''A\<newline>B\<newline>C\<newline>''))))
     = files (single_file Posix ''f'' (codepoints ''A\<newline>B\<newline>C\<newline>''))
   \<and> events (snd (apply_patch ''f'' (codepoints ''X\<newline>'') (codepoints ''Y'')
         (single_file Posix ''f'' (codepoints ''A\<newline>B\<newline>C\<newline>''))))
     = [ReadText ''f'']"
proof -
  have "\<not> sublist (codepoints ''X\<newline>'')
      (universal_newlines (codepoints ''A\<newline>B\<newline>C\<newline>''))"
    by (simp add: contains_sublist [symmetric] contains_def codepoints_def CR_def LF_def)
  with C1_absent_fails_without_write
    [of "single_file Posix ''f'' (codepoints ''A\<newline>B\<newline>C\<newline>'')" "''f''"
      "\<lparr>data = codepoints ''A\<newline>B\<newline>C\<newline>'', readable = True, writable = True\<rparr>"
      "codepoints ''X\<newline>''" "codepoints ''Y''"]
  show ?thesis by (simp add: single_file_def scalar_text_codepoints)
qed

text \<open>
  Claim C2 says that the new content is the old one with the occurrences replaced and
  all other content byte-identical. The bytes need not be: on a POSIX system a file
  \<open>"A\r\nB\r\nC\r\n"\<close>, in which \<open>B\<close> occurs exactly once (at position 3), is written
  back with \<open>B\<close> replaced by \<open>XY\<close> as \<open>"A\nXY\nC\n"\<close>, since reading turns every line
  end into \<open>'\n'\<close> and writing puts the platform's line end; the carriage returns
  outside the occurrence are gone.
\<close>

theorem C2_counterexample:
  "occurrences
     (codepoints ''A'' @ [CR, LF] @ codepoints ''B'' @ [CR, LF] @ codepoints ''C'' @ [CR, LF])
     (codepoints ''B'') = [3]
   \<and> fst (apply_patch ''f'' (codepoints ''B'') (codepoints ''XY'')
         (single_file Posix ''f''
           (codepoints ''A'' @ [CR, LF] @ codepoints ''B'' @ [CR, LF] @ codepoints ''C'' @ [CR, LF])))
       = Completed
   \<and> disk_of (snd (apply_patch ''f'' (codepoints ''B'') (codepoints ''XY'')
         (single_file Posix ''f''
           (codepoints ''A'' @ [CR, LF] @ codepoints ''B'' @ [CR, LF] @ codepoints ''C'' @ [CR, LF]))))
         ''f''
       = Some (codepoints ''A\<newline>XY\<newline>C\<newline>'')
   \<and> codepoints ''A\<newline>XY\<newline>C\<newline>''
       \<noteq> codepoints ''A'' @ [CR, LF] @ codepoints ''XY'' @ [CR, LF] @ codepoints ''C'' @ [CR, LF]"
  by (simp add: occurrences_def upt_rec apply_patch_def read_text_def write_text_def
      single_file_def disk_of_def codepoints_def scalar_text_def scalar_def CR_def LF_def
      translate_newlines_def contains_def replace.simps)

text \<open>
  Claim C2, amended. Let the content of a file be the text that reading it returns
  (UTF-8 decoded, every line end a line feed). When the expected substring occurs in the
  content of a file that may be read and written, and the replacement can be encoded,
  the run completes; the text it writes is \<open>replace\<close> of the content, the file then
  holds that text with every line feed as the platform's line end, and no other file
  changes. For a non-empty expected string the text written is the one and only text in
  which every occurrence, found from left to right, has become the replacement
  (\<open>spec_every_replaced\<close>); for the empty one it is the content with the replacement
  before every character and after the last. When the expected string occurs at exactly
  one position \<open>i\<close>, the text written is the content with the replacement in the place
  of that occurrence, and if the file had the platform's line ends throughout, the
  bytes before and behind the occurrence are as they were. When the replacement holds
  no carriage return, reading the file afterwards returns the text written.
\<close>

theorem C2_present_replaces_every_occurrence:
  assumes "files w p = Some f" and "readable f" and "writable f"
    and "scalar_text (data f)" and "scalar_text replacement"
    and "universal_newlines (data f) = content"
    and "sublist expected content"
  shows "fst (apply_patch p expected replacement w) = Completed
       \<and> events (snd (apply_patch p expected replacement w))
           = events w @ [ReadText p, WriteText p (replace content expected replacement)]
       \<and> disk_of (snd (apply_patch p expected replacement w)) p
           = Some (translate_newlines (linesep (platform w))
               (replace content expected replacement))
       \<and> (\<forall>q. q \<noteq> p \<longrightarrow> files (snd (apply_patch p expected replacement w)) q = files w q)
       \<and> (CR \<notin> set replacement \<longrightarrow>
            content_of (snd (apply_patch p expected replacement w)) p
              = Some (replace content expected replacement))
       \<and> (expected \<noteq> [] \<longrightarrow>
            (\<forall>out. spec_every_replaced expected replacement content out
                   \<longleftrightarrow> out = replace content expected replacement))
       \<and> (expected = [] \<longrightarrow>
            replace content expected replacement
              = concat (map (\<lambda>c. replacement @ [c]) content) @ replacement)
       \<and> (\<forall>i. occurrences content expected = [i] \<longrightarrow>
              replace content expected replacement
                = take i content @ replacement @ drop (i + length expected) content
            \<and> (translate_newlines (linesep (platform w)) content = data f \<longrightarrow>
                 data f
                   = translate_newlines (linesep (platform w)) (take i content)
                     @ translate_newlines (linesep (platform w)) expected
                     @ translate_newlines (linesep (platform w))
                         (drop (i + length expected) content)
               \<and> disk_of (snd (apply_patch p expected replacement w)) p
                   = Some (translate_newlines (linesep (platform w)) (take i content)
                     @ translate_newlines (linesep (platform w)) replacement
                     @ translate_newlines (linesep (platform w))
                         (drop (i + length expected) content))))"
proof -
  let ?sep = "linesep (platform w)"
  let ?out = "replace content expected replacement"
  from assms(6,7) have occ: "sublist expected (universal_newlines (data f))" by simp
  note io = assms(1-5) occ
  note after = apply_patch_after [OF io, unfolded assms(6)]
  have c1: "content_of (snd (apply_patch p expected replacement w)) p = Some ?out"
    if "CR \<notin> set replacement"
    using apply_patch_content [OF io that] by (simp add: assms(6))
  have c2: "spec_every_replaced expected replacement content out \<longleftrightarrow> out = ?out"
    if "expected \<noteq> []" for out
    using spec_every_replaced_unique [of expected replacement content out]
      spec_every_replaced_replace [OF that, of replacement content] by blast
  have c3: "?out = concat (map (\<lambda>c. replacement @ [c]) content) @ replacement"
    if "expected = []"
    using that by (simp add: replace_empty replace_interleave_concat)
  have c4: "?out = take i content @ replacement @ drop (i + length expected) content"
    if "occurrences content expected = [i]" for i
    using that by (rule replace_single_occurrence)
  have c5: "data f
        = translate_newlines ?sep (take i content) @ translate_newlines ?sep expected
          @ translate_newlines ?sep (drop (i + length expected) content)
      \<and> disk_of (snd (apply_patch p expected replacement w)) p
        = Some (translate_newlines ?sep (take i content) @ translate_newlines ?sep replacement
          @ translate_newlines ?sep (drop (i + length expected) content))"
    if one: "occurrences content expected = [i]"
      and native: "translate_newlines ?sep content = data f" for i
  proof -
    from occurrence_split [OF one]
    have "translate_newlines ?sep content
        = translate_newlines ?sep
            (take i content @ expected @ drop (i + length expected) content)"
      by simp
    then have "data f
        = translate_newlines ?sep (take i content) @ translate_newlines ?sep expected
          @ translate_newlines ?sep (drop (i + length expected) content)"
      by (simp only: native translate_newlines_append)
    moreover have "translate_newlines ?sep ?out
        = translate_newlines ?sep (take i content) @ translate_newlines ?sep replacement
          @ translate_newlines ?sep (drop (i + length expected) content)"
      by (simp only: c4 [OF one] translate_newlines_append)
    ultimately show ?thesis using after(6) by simp
  qed
  from after(1,2,4,6) c1 c2 c3 c4 c5 show ?thesis by blast
qed

theorem C2_present_replaces_every_occurrence_witness:
  "fst (apply_patch ''f'' (codepoints ''B'') (codepoints ''XY'')
         (single_file Posix ''f'' (codepoints ''ABCB''))) = Completed
   \<and> disk_of (snd (apply_patch ''f'' (codepoints ''B'') (codepoints ''XY'')
         (single_file Posix ''f'' (codepoints ''ABCB'')))) ''f''
       = Some (codepoints ''AXYCXY'')
   \<and> content_of (snd (apply_patch ''f'' (codepoints ''B'') (codepoints ''XY'')
         (single_file Posix ''f'' (codepoints ''ABCB'')))) ''f''
       = Some (codepoints ''AXYCXY'')
   \<and> spec_every_replaced (codepoints ''B'') (codepoints ''XY'')
         (codepoints ''ABCB'') (codepoints ''AXYCXY'')
   \<and> files (snd (apply_patch ''f'' (codepoints ''B'') (codepoints ''XY'')
         (single_file Posix ''f'' (codepoints ''ABCB'')))) ''g'' = None
   \<and> occurrences (codepoints ''A\<newline>B\<newline>C\<newline>'') (codepoints ''B'') = [2]
   \<and> disk_of (snd (apply_patch ''f'' (codepoints ''B'') (codepoints ''XY'')
         (single_file Windows ''f''
           (codepoints ''A'' @ [CR, LF] @ codepoints ''B'' @ [CR, LF] @ codepoints ''C'' @ [CR, LF]))))
         ''f''
       = Some (codepoints ''A'' @ [CR, LF] @ codepoints ''XY'' @ [CR, LF]
           @ codepoints ''C'' @ [CR, LF])"
proof -
  let ?e = "codepoints ''B''" and ?r = "codepoints ''XY''"
  let ?d = "codepoints ''A'' @ [CR, LF] @ codepoints ''B'' @ [CR, LF] @ codepoints ''C'' @ [CR, LF]"
  have twice: "replace (codepoints ''ABCB'') ?e ?r = codepoints ''AXYCXY''"
    by (simp add: replace.simps codepoints_def)
  have un1: "universal_newlines (codepoints ''ABCB'') = codepoints ''ABCB''"
    by (simp add: codepoints_def CR_def)
  have a: "sublist ?e (codepoints ''ABCB'')"
    by (simp add: contains_sublist [symmetric] contains_def codepoints_def)
  have noCR: "CR \<notin> set ?r" by (simp add: codepoints_def CR_def)
  have ne: "?e \<noteq> []" by (simp add: codepoints_def)
  from C2_present_replaces_every_occurrence
    [of "single_file Posix ''f'' (codepoints ''ABCB'')" "''f''"
      "\<lparr>data = codepoints ''ABCB'', readable = True, writable = True\<rparr>"
      ?r "codepoints ''ABCB''" ?e] un1 a noCR ne twice
  have first: "fst (apply_patch ''f'' ?e ?r (single_file Posix ''f'' (codepoints ''ABCB'')))
      = Completed
    \<and> disk_of (snd (apply_patch ''f'' ?e ?r
          (single_file Posix ''f'' (codepoints ''ABCB'')))) ''f''
        = Some (codepoints ''AXYCXY'')
    \<and> content_of (snd (apply_patch ''f'' ?e ?r
          (single_file Posix ''f'' (codepoints ''ABCB'')))) ''f''
        = Some (codepoints ''AXYCXY'')
    \<and> spec_every_replaced ?e ?r (codepoints ''ABCB'') (codepoints ''AXYCXY'')
    \<and> files (snd (apply_patch ''f'' ?e ?r
          (single_file Posix ''f'' (codepoints ''ABCB'')))) ''g'' = None"
    by (simp add: single_file_def scalar_text_codepoints translate_newlines_Posix)
  have un2: "universal_newlines ?d = codepoints ''A\<newline>B\<newline>C\<newline>''"
    by (simp add: codepoints_def CR_def LF_def)
  have sc2: "scalar_text ?d"
    by (simp add: codepoints_def scalar_text_def scalar_def CR_def LF_def)
  have b: "sublist ?e (codepoints ''A\<newline>B\<newline>C\<newline>'')"
    by (simp add: contains_sublist [symmetric] contains_def codepoints_def)
  have one: "occurrences (codepoints ''A\<newline>B\<newline>C\<newline>'') ?e = [2]"
    by (simp add: occurrences_def upt_rec codepoints_def)
  have native: "translate_newlines (linesep Windows) (codepoints ''A\<newline>B\<newline>C\<newline>'') = ?d"
    by (simp add: translate_newlines_def codepoints_def CR_def LF_def)
  from C2_present_replaces_every_occurrence
    [of "single_file Windows ''f'' ?d" "''f''"
      "\<lparr>data = ?d, readable = True, writable = True\<rparr>"
      ?r "codepoints ''A\<newline>B\<newline>C\<newline>''" ?e] un2 sc2 b
  have "\<forall>i. occurrences (codepoints ''A\<newline>B\<newline>C\<newline>'') ?e = [i] \<longrightarrow>
      (translate_newlines (linesep Windows) (codepoints ''A\<newline>B\<newline>C\<newline>'') = ?d \<longrightarrow>
        disk_of (snd (apply_patch ''f'' ?e ?r (single_file Windows ''f'' ?d))) ''f''
          = Some (translate_newlines (linesep Windows)
              (take i (codepoints ''A\<newline>B\<newline>C\<newline>''))
            @ translate_newlines (linesep Windows) ?r
            @ translate_newlines (linesep Windows)
                (drop (i + length ?e) (codepoints ''A\<newline>B\<newline>C\<newline>''))))"
    by (auto simp: single_file_def scalar_text_codepoints)
  with one native
  have "disk_of (snd (apply_patch ''f'' ?e ?r (single_file Windows ''f'' ?d))) ''f''
      = Some (translate_newlines (linesep Windows)
          (take 2 (codepoints ''A\<newline>B\<newline>C\<newline>''))
        @ translate_newlines (linesep Windows) ?r
        @ translate_newlines (linesep Windows)
            (drop (2 + length ?e) (codepoints ''A\<newline>B\<newline>C\<newline>'')))"
    by blast
  then have second: "disk_of (snd (apply_patch ''f'' ?e ?r (single_file Windows ''f'' ?d))) ''f''
      = Some (codepoints ''A'' @ [CR, LF] @ codepoints ''XY'' @ [CR, LF]
          @ codepoints ''C'' @ [CR, LF])"
    by (simp add: translate_newlines_def codepoints_def CR_def LF_def)
  from first one second show ?thesis by simp
qed

text \<open>
  Claim C3 says that the script replaces the first occurrence only. It does not: run on
  a file that holds its constant \<open>old\<close> twice, the script writes \<open>new\<close> twice, where
  replacing the first occurrence only would leave \<open>new\<close> followed by \<open>old\<close>.
\<close>

theorem C3_counterexample:
  "fst (script_update (single_file Windows path (old @ old))) = Completed
   \<and> events (snd (script_update (single_file Windows path (old @ old))))
       = [ReadText path, WriteText path (new @ new)]
   \<and> content_of (snd (script_update (single_file Windows path (old @ old)))) path
       = Some (new @ new)
   \<and> spec_first_only (old @ old) old new = new @ old
   \<and> new @ new \<noteq> new @ old"
proof -
  let ?f = "\<lparr>data = old @ old, readable = True, writable = True\<rparr>"
  have "\<not> sublist old ([] @ butlast old)"
    using not_sublist_butlast [OF old_nonempty] by simp
  then have "str_find ([] @ old @ old) old = Some (length ([] :: nat list))"
    by (rule str_find_append)
  then have first: "spec_first_only (old @ old) old new = new @ old"
    by (simp add: spec_first_only_def)
  have un: "universal_newlines (old @ old) = old @ old"
    using old_no_CR by (simp add: universal_newlines_id)
  have io: "files (single_file Windows path (old @ old)) path = Some ?f"
    "readable ?f" "writable ?f" "scalar_text (data ?f)" "scalar_text new"
    "sublist old (universal_newlines (data ?f))"
    using scalar_text_old scalar_text_new
    by (simp_all add: single_file_def un scalar_text_def)
  have noCR: "CR \<notin> set new" by (rule new_no_CR)
  from apply_patch_after(1,2) [OF io] apply_patch_content [OF io noCR]
  have "fst (script_update (single_file Windows path (old @ old))) = Completed
    \<and> events (snd (script_update (single_file Windows path (old @ old))))
        = [ReadText path, WriteText path (new @ new)]
    \<and> content_of (snd (script_update (single_file Windows path (old @ old)))) path
        = Some (new @ new)"
    by (simp add: script_update_def un replace_old_old single_file_def)
  with first new_differs show ?thesis by simp
qed

text \<open>
  Claim C3, amended. The script replaces the occurrences behind the first one as well:
  when the content is \<open>before @ expected @ rest\<close> with the first occurrence at the end of
  \<open>before\<close>, the expected string occurs again in \<open>rest\<close>, and the replacement differs from
  the expected string, then the text written is \<open>before\<close>, the replacement, and \<open>rest\<close>
  with its occurrences replaced in turn, which is not \<open>rest\<close>; so the result is never
  what replacing the first occurrence only would give.
\<close>

theorem C3_later_occurrences_replaced:
  assumes "files w p = Some f" and "readable f" and "writable f"
    and "scalar_text (data f)" and "scalar_text replacement"
    and "universal_newlines (data f) = before @ expected @ rest"
    and "\<not> sublist expected (before @ butlast expected)"
    and "sublist expected rest"
    and "replacement \<noteq> expected"
  shows "fst (apply_patch p expected replacement w) = Completed
       \<and> events (snd (apply_patch p expected replacement w))
           = events w @
             [ReadText p,
              WriteText p (before @ replacement @ replace rest expected replacement)]
       \<and> disk_of (snd (apply_patch p expected replacement w)) p
           = Some (translate_newlines (linesep (platform w))
               (before @ replacement @ replace rest expected replacement))
       \<and> (CR \<notin> set replacement \<longrightarrow>
            content_of (snd (apply_patch p expected replacement w)) p
              = Some (before @ replacement @ replace rest expected replacement))
       \<and> replace rest expected replacement \<noteq> rest
       \<and> spec_first_only (before @ expected @ rest) expected replacement
           = before @ replacement @ rest
       \<and> replace (before @ expected @ rest) expected replacement
           \<noteq> spec_first_only (before @ expected @ rest) expected replacement"
proof -
  let ?t = "before @ expected @ rest"
  from assms(7) have ne: "expected \<noteq> []" by auto
  have occ: "sublist expected (universal_newlines (data f))"
    by (simp add: assms(6))
  note io = assms(1-5) occ
  have all: "replace ?t expected replacement
      = before @ replacement @ replace rest expected replacement"
    using assms(7) by (rule replace_at_first)
  have "str_find ?t expected = Some (length before)"
    using assms(7) by (rule str_find_append)
  then have first: "spec_first_only ?t expected replacement = before @ replacement @ rest"
    by (simp add: spec_first_only_def)
  have later: "replace rest expected replacement \<noteq> rest"
    using replace_fixpoint [OF ne assms(8)] assms(9) by blast
  have "content_of (snd (apply_patch p expected replacement w)) p
      = Some (before @ replacement @ replace rest expected replacement)"
    if "CR \<notin> set replacement"
    using apply_patch_content [OF io that] by (simp add: assms(6) all)
  with apply_patch_after(1,2,6) [OF io] all first later show ?thesis
    by (simp add: assms(6))
qed

theorem C3_later_occurrences_replaced_witness:
  "fst (apply_patch ''f'' (codepoints ''B'') (codepoints ''XY'')
         (single_file Posix ''f'' (codepoints ''ABCB''))) = Completed
   \<and> content_of (snd (apply_patch ''f'' (codepoints ''B'') (codepoints ''XY'')
         (single_file Posix ''f'' (codepoints ''ABCB'')))) ''f''
       = Some (codepoints ''AXYCXY'')
   \<and> disk_of (snd (apply_patch ''f'' (codepoints ''B'') (codepoints ''XY'')
         (single_file Posix ''f'' (codepoints ''ABCB'')))) ''f''
       = Some (codepoints ''AXYCXY'')
   \<and> spec_first_only (codepoints ''ABCB'') (codepoints ''B'') (codepoints ''XY'')
       = codepoints ''AXYCB''"
proof -
  have "replace (codepoints ''CB'') (codepoints ''B'') (codepoints ''XY'') = codepoints ''CXY''"
    by (simp add: replace.simps codepoints_def)
  moreover have "\<not> sublist (codepoints ''B'') (codepoints ''A'' @ butlast (codepoints ''B''))"
    and "sublist (codepoints ''B'') (codepoints ''CB'')"
    by (simp_all add: contains_sublist [symmetric] contains_def codepoints_def)
  moreover have "universal_newlines (codepoints ''ABCB'')
      = codepoints ''A'' @ codepoints ''B'' @ codepoints ''CB''"
    by (simp add: codepoints_def CR_def)
  moreover have "CR \<notin> set (codepoints ''XY'')" and "codepoints ''XY'' \<noteq> codepoints ''B''"
    by (simp_all add: codepoints_def CR_def)
  ultimately show ?thesis
    using C3_later_occurrences_replaced
      [of "single_file Posix ''f'' (codepoints ''ABCB'')" "''f''"
        "\<lparr>data = codepoints ''ABCB'', readable = True, writable = True\<rparr>"
        "codepoints ''XY''" "codepoints ''A''" "codepoints ''B''" "codepoints ''CB''"]
    by (simp add: single_file_def scalar_text_codepoints translate_newlines_Posix)
      (simp add: codepoints_def)
qed

text \<open>
  Claim C4 says that the same patch, applied a second time, fails. It need not: with
  expected \<open>B\<close> and replacement \<open>B2\<close> on the content \<open>"A\nB\nC\n"\<close> the first run writes
  \<open>"A\nB2\nC\n"\<close>, in which \<open>B\<close> occurs again, and the second run completes and writes
  \<open>"A\nB22\nC\n"\<close>.
\<close>

theorem C4_counterexample:
  "fst (apply_patch ''f'' (codepoints ''B'') (codepoints ''B2'')
         (single_file Posix ''f'' (codepoints ''A\<newline>B\<newline>C\<newline>''))) = Completed
   \<and> disk_of (snd (apply_patch ''f'' (codepoints ''B'') (codepoints ''B2'')
         (single_file Posix ''f'' (codepoints ''A\<newline>B\<newline>C\<newline>'')))) ''f''
       = Some (codepoints ''A\<newline>B2\<newline>C\<newline>'')
   \<and> fst (apply_patch ''f'' (codepoints ''B'') (codepoints ''B2'')
         (snd (apply_patch ''f'' (codepoints ''B'') (codepoints ''B2'')
           (single_file Posix ''f'' (codepoints ''A\<newline>B\<newline>C\<newline>'')))))
       = Completed
   \<and> disk_of (snd (apply_patch ''f'' (codepoints ''B'') (codepoints ''B2'')
         (snd (apply_patch ''f'' (codepoints ''B'') (codepoints ''B2'')
           (single_file Posix ''f'' (codepoints ''A\<newline>B\<newline>C\<newline>'')))))) ''f''
       = Some (codepoints ''A\<newline>B22\<newline>C\<newline>'')"
  by (simp add: apply_patch_def read_text_def write_text_def single_file_def disk_of_def
      codepoints_def scalar_text_def scalar_def CR_def LF_def translate_newlines_def
      contains_def replace.simps)

text \<open>
  Claim C4, amended. After a run that completed, a second run with the same expected
  string and replacement ends with \<open>SystemExit('pattern not found')\<close> exactly when the
  expected string does not occur in the text that the second run reads, which is the
  text the first run wrote, brought to disk with the platform's line ends and read back
  with universal newlines. That is so whenever the expected string and the replacement
  are apart and the replacement holds no carriage return, and the second run then
  leaves every file as the first run left it. (The script's own \<open>old\<close> and \<open>new\<close> are
  such: \<open>old_new_apart\<close>, \<open>new_no_CR\<close>, \<open>script_update_twice\<close>.)
\<close>

theorem C4_second_application:
  assumes "files w p = Some f" and "readable f" and "writable f"
    and "scalar_text (data f)" and "scalar_text replacement"
    and "universal_newlines (data f) = content"
    and "sublist expected content"
  shows "fst (apply_patch p expected replacement w) = Completed
       \<and> content_of (snd (apply_patch p expected replacement w)) p
           = Some (universal_newlines (translate_newlines (linesep (platform w))
               (replace content expected replacement)))
       \<and> (fst (apply_patch p expected replacement (snd (apply_patch p expected replacement w)))
            = Raised (SystemExit ''pattern not found'')
          \<longleftrightarrow> \<not> sublist expected
                (universal_newlines (translate_newlines (linesep (platform w))
                  (replace content expected replacement))))
       \<and> (apart expected replacement \<and> CR \<notin> set replacement \<longrightarrow>
            fst (apply_patch p expected replacement (snd (apply_patch p expected replacement w)))
              = Raised (SystemExit ''pattern not found'')
          \<and> files (snd (apply_patch p expected replacement
                (snd (apply_patch p expected replacement w))))
              = files (snd (apply_patch p expected replacement w)))"
proof -
  let ?second = "apply_patch p expected replacement (snd (apply_patch p expected replacement w))"
  let ?text = "universal_newlines (translate_newlines (linesep (platform w))
    (replace content expected replacement))"
  from assms(6,7) have occ: "sublist expected (universal_newlines (data f))" by simp
  note io = assms(1-5) occ
  note after = apply_patch_after [OF io, unfolded assms(6)]
  have iff: "fst ?second = Raised (SystemExit ''pattern not found'')
      \<longleftrightarrow> \<not> sublist expected ?text"
  proof (cases "sublist expected ?text")
    case True
    then have "fst ?second = Completed"
      using second_run_success [OF io] by (simp add: assms(6))
    with True show ?thesis by simp
  next
    case False
    then have "fst ?second = Raised (SystemExit ''pattern not found'')"
      using second_run_mismatch [OF io] by (simp add: assms(6))
    with False show ?thesis by simp
  qed
  have "fst ?second = Raised (SystemExit ''pattern not found'')
      \<and> files (snd ?second) = files (snd (apply_patch p expected replacement w))"
    if "apart expected replacement" "CR \<notin> set replacement"
    using second_run_mismatch [OF io second_text_without_expected [OF that]] .
  with after(1,7) iff show ?thesis by blast
qed

theorem C4_second_application_witness:
  "fst (script_update (single_file Windows path (old @ old))) = Completed
   \<and> fst (script_update (snd (script_update (single_file Windows path (old @ old)))))
       = Raised (SystemExit ''pattern not found'')
   \<and> files (snd (script_update (snd (script_update (single_file Windows path (old @ old))))))
       = files (snd (script_update (single_file Windows path (old @ old))))"
proof -
  have "universal_newlines (old @ old) = old @ old"
    using old_no_CR by (simp add: universal_newlines_id)
  moreover have "sublist old (old @ old)" by simp
  moreover have "scalar_text (old @ old)"
    using scalar_text_old by (simp add: scalar_text_def)
  ultimately show ?thesis
    using C4_second_application
      [of "single_file Windows path (old @ old)" path
        "\<lparr>data = old @ old, readable = True, writable = True\<rparr>" new "old @ old" old]
      old_new_apart new_no_CR scalar_text_new
    by (simp add: single_file_def script_update_def)
qed

text \<open>
  Claim C5 says that after a run that completed the file contains the replacement and
  no longer the expected string, provided the two are disjoint. As stated it fails in
  two ways. With the empty replacement, which has no character in common with \<open>ab\<close>,
  neither begins nor ends it, and does not contain it: the content \<open>aabb\<close> becomes \<open>ab\<close>.
  With \<open>ab\<close> and \<open>ca\<close>, neither of which occurs in the other: the content \<open>abb\<close> becomes
  \<open>cab\<close>. Both results, read from the file, contain the expected string \<open>ab\<close>.
\<close>

theorem C5_counterexample:
  "(set (codepoints ''ab'') \<inter> set (codepoints '''') = {}
    \<and> \<not> contains (codepoints '''') (codepoints ''ab'')
    \<and> \<not> overlaps (codepoints ''ab'') (codepoints '''')
    \<and> \<not> overlaps (codepoints '''') (codepoints ''ab'')
    \<and> fst (apply_patch ''f'' (codepoints ''ab'') (codepoints '''')
          (single_file Posix ''f'' (codepoints ''aabb''))) = Completed
    \<and> content_of (snd (apply_patch ''f'' (codepoints ''ab'') (codepoints '''')
          (single_file Posix ''f'' (codepoints ''aabb'')))) ''f''
        = Some (codepoints ''ab'')
    \<and> contains (codepoints ''ab'') (codepoints ''ab''))
   \<and> (\<not> contains (codepoints ''ca'') (codepoints ''ab'')
    \<and> \<not> contains (codepoints ''ab'') (codepoints ''ca'')
    \<and> fst (apply_patch ''f'' (codepoints ''ab'') (codepoints ''ca'')
          (single_file Posix ''f'' (codepoints ''abb''))) = Completed
    \<and> content_of (snd (apply_patch ''f'' (codepoints ''ab'') (codepoints ''ca'')
          (single_file Posix ''f'' (codepoints ''abb'')))) ''f''
        = Some (codepoints ''cab'')
    \<and> contains (codepoints ''cab'') (codepoints ''ab''))"
  by (simp add: apply_patch_def read_text_def write_text_def single_file_def content_of_def
      codepoints_def scalar_text_def scalar_def CR_def LF_def translate_newlines_def
      contains_def replace.simps)

text \<open>
  Claim C5, amended. When the expected string and the replacement are apart (neither
  occurs in the other, neither ends with a beginning of the other; two non-empty strings
  with no character in common are: \<open>apart_if_no_common_char\<close>) and the replacement
  holds no carriage return, then after a run that completed, reading the file returns
  the text that was written, and searching it finds the replacement and does not find
  the expected string.
\<close>

theorem C5_round_trip:
  assumes "files w p = Some f" and "readable f" and "writable f"
    and "scalar_text (data f)" and "scalar_text replacement"
    and "universal_newlines (data f) = content"
    and "sublist expected content"
    and "apart expected replacement"
    and "CR \<notin> set replacement"
  shows "fst (apply_patch p expected replacement w) = Completed
       \<and> read_text (snd (apply_patch p expected replacement w)) p
           = Inr (replace content expected replacement,
               (snd (apply_patch p expected replacement w))
                 \<lparr>events := events (snd (apply_patch p expected replacement w))
                    @ [ReadText p]\<rparr>)
       \<and> content_of (snd (apply_patch p expected replacement w)) p
           = Some (replace content expected replacement)
       \<and> contains (replace content expected replacement) replacement
       \<and> \<not> contains (replace content expected replacement) expected"
proof -
  let ?w1 = "snd (apply_patch p expected replacement w)"
  let ?out = "replace content expected replacement"
  from assms(6,7) have occ: "sublist expected (universal_newlines (data f))" by simp
  note io = assms(1-5) occ
  have content: "content_of ?w1 p = Some ?out"
    using apply_patch_content [OF io assms(9)] by (simp add: assms(6))
  then have "read_text ?w1 p = Inr (?out, ?w1\<lparr>events := events ?w1 @ [ReadText p]\<rparr>)"
    by (auto simp: content_of_def read_text_def split: option.splits if_splits)
  moreover have "sublist replacement ?out"
    using assms(7) by (rule replace_shows_replacement)
  moreover have "\<not> sublist expected ?out"
    using assms(8) by (rule replace_removes_expected)
  ultimately show ?thesis
    using apply_patch_after(1) [OF io] content by (simp add: contains_sublist)
qed

theorem C5_round_trip_witness:
  "fst (script_update (single_file Windows path old)) = Completed
   \<and> content_of (snd (script_update (single_file Windows path old))) path = Some new
   \<and> contains new new
   \<and> \<not> contains new old"
proof -
  have "universal_newlines old = old"
    using old_no_CR by (rule universal_newlines_id)
  moreover have "sublist old old" by simp
  ultimately show ?thesis
    using C5_round_trip
      [of "single_file Windows path old" path
        "\<lparr>data = old, readable = True, writable = True\<rparr>" new old old]
      old_new_apart new_no_CR scalar_text_new scalar_text_old
    by (simp add: single_file_def script_update_def replace_old)
qed

text \<open>
  Claim C6. On a file whose content is \<open>"A\nB\nC\n"\<close>, with expected \<open>"B\n"\<close> and
  replacement \<open>"B2\nB3\n"\<close>, the run completes; the text it writes is
  \<open>"A\nB2\nB3\nC\n"\<close>, which is also what reading the file returns afterwards, and the
  file holds that text with the platform's line ends.
\<close>

theorem C6_concrete_scenario:
  assumes "files w p = Some f" and "readable f" and "writable f"
    and "universal_newlines (data f) = codepoints ''A\<newline>B\<newline>C\<newline>''"
  shows "fst (apply_patch p (codepoints ''B\<newline>'') (codepoints ''B2\<newline>B3\<newline>'') w) = Completed
       \<and> events (snd (apply_patch p (codepoints ''B\<newline>'') (codepoints ''B2\<newline>B3\<newline>'') w))
           = events w @
             [ReadText p, WriteText p (codepoints ''A\<newline>B2\<newline>B3\<newline>C\<newline>'')]
       \<and> content_of (snd (apply_patch p (codepoints ''B\<newline>'') (codepoints ''B2\<newline>B3\<newline>'') w)) p
           = Some (codepoints ''A\<newline>B2\<newline>B3\<newline>C\<newline>'')
       \<and> disk_of (snd (apply_patch p (codepoints ''B\<newline>'') (codepoints ''B2\<newline>B3\<newline>'') w)) p
           = Some (translate_newlines (linesep (platform w))
               (codepoints ''A\<newline>B2\<newline>B3\<newline>C\<newline>''))"
proof -
  let ?e = "codepoints ''B\<newline>''" and ?r = "codepoints ''B2\<newline>B3\<newline>''"
  have sc: "scalar_text (data f)"
    using assms(4) scalar_text_codepoints [of "''A\<newline>B\<newline>C\<newline>''"]
    by (simp add: scalar_text_universal_newlinesD)
  have occ: "sublist ?e (universal_newlines (data f))"
    unfolding assms(4) by (simp add: contains_sublist [symmetric] contains_def codepoints_def)
  have out: "replace (universal_newlines (data f)) ?e ?r
      = codepoints ''A\<newline>B2\<newline>B3\<newline>C\<newline>''"
    unfolding assms(4) by (simp add: replace.simps codepoints_def)
  have noCR: "CR \<notin> set ?r"
    by (simp add: codepoints_def CR_def)
  note io = assms(1-3) sc scalar_text_codepoints [of "''B2\<newline>B3\<newline>''"] occ
  from apply_patch_after(1,2,6) [OF io] apply_patch_content [OF io noCR] out
  show ?thesis by simp
qed

theorem C6_concrete_scenario_witness:
  "fst (apply_patch ''f'' (codepoints ''B\<newline>'') (codepoints ''B2\<newline>B3\<newline>'')
         (single_file Windows ''f''
           (codepoints ''A'' @ [CR, LF] @ codepoints ''B'' @ [CR, LF] @ codepoints ''C'' @ [CR, LF])))
     = Completed
   \<and> content_of (snd (apply_patch ''f'' (codepoints ''B\<newline>'') (codepoints ''B2\<newline>B3\<newline>'')
         (single_file Windows ''f''
           (codepoints ''A'' @ [CR, LF] @ codepoints ''B'' @ [CR, LF] @ codepoints ''C'' @ [CR, LF]))))
         ''f''
       = Some (codepoints ''A\<newline>B2\<newline>B3\<newline>C\<newline>'')
   \<and> disk_of (snd (apply_patch ''f'' (codepoints ''B\<newline>'') (codepoints ''B2\<newline>B3\<newline>'')
         (single_file Windows ''f''
           (codepoints ''A'' @ [CR, LF] @ codepoints ''B'' @ [CR, LF] @ codepoints ''C'' @ [CR, LF]))))
         ''f''
       = Some (codepoints ''A'' @ [CR, LF] @ codepoints ''B2'' @ [CR, LF]
           @ codepoints ''B3'' @ [CR, LF] @ codepoints ''C'' @ [CR, LF])"
proof -
  let ?d = "codepoints ''A'' @ [CR, LF] @ codepoints ''B'' @ [CR, LF] @ codepoints ''C'' @ [CR, LF]"
  have "universal_newlines ?d = codepoints ''A\<newline>B\<newline>C\<newline>''"
    by (simp add: codepoints_def CR_def LF_def)
  with C6_concrete_scenario
    [of "single_file Windows ''f'' ?d" "''f''"
      "\<lparr>data = ?d, readable = True, writable = True\<rparr>"]
  show ?thesis
    by (simp add: single_file_def translate_newlines_def codepoints_def CR_def LF_def)
qed

text \<open>
  Claim C7. Whenever a run ends with \<open>SystemExit\<close> (the spec's PatchMismatch), the
  message is \<open>pattern not found\<close>, the interpreter prints it on standard error and
  exits with status 1, every file is as it was, and the only file operation carried
  out is the read.
\<close>

theorem C7_mismatch_exit:
  assumes "fst (apply_patch p expected replacement w) = Raised (SystemExit msg)"
  shows "msg = ''pattern not found''
       \<and> exit_status (fst (apply_patch p expected replacement w)) = 1
       \<and> exit_status (fst (apply_patch p expected replacement w)) \<noteq> 0
       \<and> stderr_message (fst (apply_patch p expected replacement w))
           = Some ''pattern not found\<newline>''
       \<and> files (snd (apply_patch p expected replacement w)) = files w
       \<and> events (snd (apply_patch p expected replacement w)) = events w @ [ReadText p]"
  using assms
  by (auto simp: apply_patch_def read_text_def write_text_def Let_def
      split: option.splits if_splits sum.splits prod.splits)

theorem C7_mismatch_exit_witness:
  "fst (apply_patch ''f'' (codepoints ''X\<newline>'') (codepoints ''Y'')
         (single_file Posix ''f'' (codepoints ''A\<newline>B\<newline>C\<newline>'')))
     = Raised (SystemExit ''pattern not found'')
   \<and> exit_status (fst (apply_patch ''f'' (codepoints ''X\<newline>'') (codepoints ''Y'')
         (single_file Posix ''f'' (codepoints ''A\<newline>B\<newline>C\<newline>'')))) = 1
   \<and> stderr_message (fst (apply_patch ''f'' (codepoints ''X\<newline>'') (codepoints ''Y'')
         (single_file Posix ''f'' (codepoints ''A\<newline>B\<newline>C\<newline>''))))
       = Some ''pattern not found\<newline>''
   \<and> disk_of (snd (apply_patch ''f'' (codepoints ''X\<newline>'') (codepoints ''Y'')
         (single_file Posix ''f'' (codepoints ''A\<newline>B\<newline>C\<newline>'')))) ''f''
       = Some (codepoints ''A\<newline>B\<newline>C\<newline>'')
   \<and> events (snd (apply_patch ''f'' (codepoints ''X\<newline>'') (codepoints ''Y'')
         (single_file Posix ''f'' (codepoints ''A\<newline>B\<newline>C\<newline>''))))
       = [ReadText ''f'']"
proof -
  have "\<not> contains (universal_newlines (codepoints ''A\<newline>B\<newline>C\<newline>''))
      (codepoints ''X\<newline>'')"
    by (simp add: contains_def codepoints_def CR_def LF_def)
  then have run: "fst (apply_patch ''f'' (codepoints ''X\<newline>'') (codepoints ''Y'')
        (single_file Posix ''f'' (codepoints ''A\<newline>B\<newline>C\<newline>'')))
      = Raised (SystemExit ''pattern not found'')"
    by (simp add: apply_patch_def read_text_def single_file_def scalar_text_codepoints)
  from C7_mismatch_exit [OF run] run show ?thesis
    by (simp add: disk_of_def single_file_def)
qed

text \<open>
  Claim C8. Nothing in the script asks for a non-empty expected string. The empty
  string occurs in every text, so with an empty expected string the guard never
  raises: no run ends with \<open>SystemExit\<close>, and on a UTF-8 file that may be read and
  written the run completes and writes the text it read with the replacement put before
  every character and after the last one.
\<close>

theorem C8_empty_expected:
  "contains content []
   \<and> fst (apply_patch p [] replacement w) \<noteq> Raised (SystemExit msg)
   \<and> (files w p = Some f \<and> readable f \<and> writable f
        \<and> scalar_text (data f) \<and> scalar_text replacement \<longrightarrow>
        fst (apply_patch p [] replacement w) = Completed
      \<and> events (snd (apply_patch p [] replacement w))
          = events w @
            [ReadText p,
             WriteText p (concat (map (\<lambda>c. replacement @ [c]) (universal_newlines (data f)))
               @ replacement)]
      \<and> disk_of (snd (apply_patch p [] replacement w)) p
          = Some (translate_newlines (linesep (platform w))
              (concat (map (\<lambda>c. replacement @ [c]) (universal_newlines (data f)))
                @ replacement))
      \<and> (CR \<notin> set replacement \<longrightarrow>
           content_of (snd (apply_patch p [] replacement w)) p
             = Some (concat (map (\<lambda>c. replacement @ [c]) (universal_newlines (data f)))
                 @ replacement))
      \<and> length (replace (universal_newlines (data f)) [] replacement)
          = length (universal_newlines (data f))
            + Suc (length (universal_newlines (data f))) * length replacement)"
proof -
  have len: "length (replace_interleave cs replacement)
      = length cs + Suc (length cs) * length replacement" for cs
    by (induction cs) auto
  have never: "fst (apply_patch p [] replacement w) \<noteq> Raised (SystemExit msg)"
    by (auto simp: apply_patch_def read_text_def write_text_def contains_Nil Let_def
        split: option.splits sum.splits prod.splits)
  have "fst (apply_patch p [] replacement w) = Completed
      \<and> events (snd (apply_patch p [] replacement w))
          = events w @
            [ReadText p,
             WriteText p (concat (map (\<lambda>c. replacement @ [c]) (universal_newlines (data f)))
               @ replacement)]
      \<and> disk_of (snd (apply_patch p [] replacement w)) p
          = Some (translate_newlines (linesep (platform w))
              (concat (map (\<lambda>c. replacement @ [c]) (universal_newlines (data f)))
                @ replacement))
      \<and> (CR \<notin> set replacement \<longrightarrow>
           content_of (snd (apply_patch p [] replacement w)) p
             = Some (concat (map (\<lambda>c. replacement @ [c]) (universal_newlines (data f)))
                 @ replacement))
      \<and> length (replace (universal_newlines (data f)) [] replacement)
          = length (universal_newlines (data f))
            + Suc (length (universal_newlines (data f))) * length replacement"
    if io: "files w p = Some f" "readable f" "writable f"
      "scalar_text (data f)" "scalar_text replacement"
  proof -
    have occ: "sublist [] (universal_newlines (data f))" by simp
    have out: "replace (universal_newlines (data f)) [] replacement
        = concat (map (\<lambda>c. replacement @ [c]) (universal_newlines (data f))) @ replacement"
      by (simp add: replace_empty replace_interleave_concat)
    have "content_of (snd (apply_patch p [] replacement w)) p
        = Some (replace (universal_newlines (data f)) [] replacement)"
      if "CR \<notin> set replacement"
      using io occ that by (rule apply_patch_content)
    with apply_patch_after(1,2,6) [OF io occ] out len [of "universal_newlines (data f)"]
    show ?thesis by (simp add: replace_empty)
  qed
  with never show ?thesis by (simp add: contains_Nil)
qed

theorem C8_empty_expected_witness:
  "contains (codepoints ''ab'') []
   \<and> fst (apply_patch ''f'' [] (codepoints ''-'') (single_file Posix ''f'' (codepoints ''ab'')))
       = Completed
   \<and> content_of (snd (apply_patch ''f'' [] (codepoints ''-'')
         (single_file Posix ''f'' (codepoints ''ab'')))) ''f''
       = Some (codepoints ''-a-b-'')
   \<and> disk_of (snd (apply_patch ''f'' [] (codepoints ''-'')
         (single_file Posix ''f'' (codepoints ''ab'')))) ''f''
       = Some (codepoints ''-a-b-'')
   \<and> length (replace (codepoints ''ab'') [] (codepoints ''-'')) = 5"
proof -
  have "universal_newlines (codepoints ''ab'') = codepoints ''ab''"
    by (simp add: codepoints_def CR_def)
  with C8_empty_expected
    [of "codepoints ''ab''" "''f''" "codepoints ''-''"
      "single_file Posix ''f'' (codepoints ''ab'')" "''pattern not found''"
      "\<lparr>data = codepoints ''ab'', readable = True, writable = True\<rparr>"]
  show ?thesis
    by (simp add: single_file_def scalar_text_codepoints translate_newlines_Posix)
      (simp add: codepoints_def CR_def)
qed

text \<open>
  Claim C9. When the replacement is the expected string itself and the expected string
  occurs in the content, the run completes, the text it writes is the text it read, and
  reading the file afterwards returns the same text as before. Every file, the patched
  one included, is as it was when the file had the platform's line ends throughout.
\<close>

theorem C9_identity:
  assumes "files w p = Some f" and "readable f" and "writable f"
    and "scalar_text (data f)"
    and "sublist expected (universal_newlines (data f))"
  shows "fst (apply_patch p expected expected w) = Completed
       \<and> events (snd (apply_patch p expected expected w))
           = events w @ [ReadText p, WriteText p (universal_newlines (data f))]
       \<and> content_of (snd (apply_patch p expected expected w)) p
           = Some (universal_newlines (data f))
       \<and> content_of (snd (apply_patch p expected expected w)) p = content_of w p
       \<and> (translate_newlines (linesep (platform w)) (universal_newlines (data f)) = data f
           \<longrightarrow> files (snd (apply_patch p expected expected w)) = files w)"
proof -
  let ?t = "universal_newlines (data f)"
  let ?w1 = "snd (apply_patch p expected expected w)"
  have same: "replace ?t expected expected = ?t"
    by (rule replace_same) (rule refl)
  have sc: "scalar_text expected"
    using assms(5) scalar_text_universal_newlines [OF assms(4)] by (rule scalar_text_sublist)
  note io = assms(1-4) sc assms(5)
  note after = apply_patch_after [OF io]
  have again: "universal_newlines (translate_newlines (linesep (platform w)) ?t) = ?t"
    using universal_newlines_no_CR by (rule read_back)
  have prior: "content_of w p = Some ?t"
    using assms(1,2,4) by (rule content_of_file)
  have "files ?w1 = files w"
    if native: "translate_newlines (linesep (platform w)) ?t = data f"
  proof
    fix q
    show "files ?w1 q = files w q"
    proof (cases "q = p")
      case True
      with after(3) assms(1) native show ?thesis by (simp add: same)
    next
      case False
      then show ?thesis by (rule after(4))
    qed
  qed
  with after(1,2,7) prior again show ?thesis by (simp add: same)
qed

theorem C9_identity_witness:
  "fst (apply_patch ''f'' (codepoints ''B'') (codepoints ''B'')
         (single_file Posix ''f'' (codepoints ''ABCB''))) = Completed
   \<and> content_of (snd (apply_patch ''f'' (codepoints ''B'') (codepoints ''B'')
         (single_file Posix ''f'' (codepoints ''ABCB'')))) ''f''
       = Some (codepoints ''ABCB'')
   \<and> files (snd (apply_patch ''f'' (codepoints ''B'') (codepoints ''B'')
         (single_file Posix ''f'' (codepoints ''ABCB''))))
       = files (single_file Posix ''f'' (codepoints ''ABCB''))"
proof -
  have un: "universal_newlines (codepoints ''ABCB'') = codepoints ''ABCB''"
    by (simp add: codepoints_def CR_def)
  have "sublist (codepoints ''B'') (codepoints ''ABCB'')"
    by (simp add: contains_sublist [symmetric] contains_def codepoints_def)
  with C9_identity
    [of "single_file Posix ''f'' (codepoints ''ABCB'')" "''f''"
      "\<lparr>data = codepoints ''ABCB'', readable = True, writable = True\<rparr>" "codepoints ''B''"] un
  show ?thesis
    by (simp add: single_file_def scalar_text_codepoints translate_newlines_Posix)
qed

end
